theory Spec2Isabelle
  imports Complex_Main "HOL-Library.AList"
begin

section \<open>Ranking metrics of \<open>scripts/checkPrecisionRecall.py\<close>\<close>

text \<open>
  The development embeds \<open>calcMetrics\<close> of \<open>scripts/checkPrecisionRecall.py\<close>.
  Python integers are \<open>int\<close>; Python and numpy floating-point numbers are modelled as
  \<open>real\<close>, so rounding is abstracted away and only the two non-finite outcomes that the
  source itself handles (\<open>nan\<close> and \<open>inf\<close> under \<open>np.nan_to_num\<close>) are written out.
  Every exception the source can raise is a value \<open>Inl e\<close> of the result type.
  The results dictionary is an association list in insertion order (the keys of a Python
  dictionary are distinct, which the theorems assume where they rely on it), the
  ground-truth dictionary (already loaded from its pickle file) is a map whose values
  are the stored collections of relevant identifiers, and the experiment tracker is the
  list of scalars logged so far. The unused parameters \<open>resPath\<close> and \<open>verbose\<close> are
  left out.
\<close>

subsection \<open>Exceptions\<close>

datatype error = IndexError | ValueError | ZeroDivisionError

definition ebind :: "error + 'a \<Rightarrow> ('a \<Rightarrow> error + 'b) \<Rightarrow> error + 'b" where
  "ebind m f = (case m of Inl e \<Rightarrow> Inl e | Inr x \<Rightarrow> f x)"

text \<open>A \<open>for\<close> loop over a list whose body may raise: the first exception ends the loop.\<close>

fun for_each :: "('s \<Rightarrow> 'x \<Rightarrow> error + 's) \<Rightarrow> 's \<Rightarrow> 'x list \<Rightarrow> error + 's" where
  "for_each body s [] = Inr s"
| "for_each body s (x # xs) =
     (case body s x of Inl e \<Rightarrow> Inl e | Inr s' \<Rightarrow> for_each body s' xs)"

subsection \<open>Python and numpy primitives used by the source\<close>

definition wrap_index :: "nat \<Rightarrow> int \<Rightarrow> error + nat" where
  \<comment> \<open>The position an index denotes in a sequence of \<open>len\<close> elements: the indices
      \<open>-len, \<dots>, -1\<close> count from the end, anything outside \<open>-len, \<dots>, len - 1\<close> raises.\<close>
  "wrap_index len i =
     (if 0 \<le> i \<and> i < int len then Inr (nat i)
      else if - int len \<le> i \<and> i < 0 then Inr (nat (int len + i))
      else Inl IndexError)"

definition py_index :: "'a list \<Rightarrow> int \<Rightarrow> error + 'a" where
  \<comment> \<open>\<open>xs[i]\<close> on a list or a one-dimensional array.\<close>
  "py_index xs i = ebind (wrap_index (length xs) i) (\<lambda>j. Inr (xs ! j))"

definition py_prefix :: "'a list \<Rightarrow> int \<Rightarrow> 'a list" where
  \<comment> \<open>\<open>xs[:k]\<close>: a slice never raises; a negative bound counts from the end.\<close>
  "py_prefix xs k =
     (if 0 \<le> k then take (nat k) xs else take (length xs - nat (- k)) xs)"

definition py_truediv :: "real \<Rightarrow> real \<Rightarrow> error + real" where
  \<comment> \<open>\<open>a / b\<close> on Python scalars.\<close>
  "py_truediv a b = (if b = 0 then Inl ZeroDivisionError else Inr (a / b))"

definition py_range :: "int \<Rightarrow> int \<Rightarrow> int \<Rightarrow> error + int list" where
  \<comment> \<open>\<open>range(start, stop, step)\<close>.\<close>
  "py_range start stop step =
     (if step = 0 then Inl ValueError
      else if 0 < step then
        Inr (map (\<lambda>j. start + int j * step) [0..<nat ((stop - start + step - 1) div step)])
      else
        Inr (map (\<lambda>j. start + int j * step) [0..<nat ((start - stop - step - 1) div (- step))]))"

definition np_zeros :: "int \<Rightarrow> error + real list" where
  \<comment> \<open>\<open>np.zeros(n)\<close> rejects a negative dimension.\<close>
  "np_zeros n = (if n < 0 then Inl ValueError else Inr (replicate (nat n) 0))"

definition np_iadd :: "real list \<Rightarrow> int \<Rightarrow> real \<Rightarrow> error + real list" where
  \<comment> \<open>\<open>arr[i] += v\<close>.\<close>
  "np_iadd arr i v = ebind (wrap_index (length arr) i) (\<lambda>j. Inr (arr[j := arr ! j + v]))"

definition np_mean_axis0 :: "real list list \<Rightarrow> error + real list" where
  \<comment> \<open>\<open>np.mean(rows, axis=0)\<close> on a non-empty list of rows: the column means; rows of
      different lengths do not form an array. The source calls it on at least one row.\<close>
  "np_mean_axis0 rows =
     (case rows of
        [] \<Rightarrow> Inr []
      | row0 # _ \<Rightarrow>
          if list_all (\<lambda>row. length row = length row0) rows
          then Inr (map (\<lambda>j. sum_list (map (\<lambda>row. row ! j) rows) / real (length rows))
                      [0..<length row0])
          else Inl ValueError)"

definition float_max :: real where
  \<comment> \<open>The largest finite double, which \<open>np.nan_to_num\<close> puts in the place of \<open>inf\<close>.\<close>
  "float_max = (2 ^ 53 - 1) * 2 ^ 971"

definition f1_entry :: "real \<Rightarrow> real \<Rightarrow> real" where
  \<comment> \<open>One entry of \<open>np.nan_to_num(2 * (p * r) / (p + r))\<close>: numpy division does not raise;
      \<open>0 / 0\<close> is \<open>nan\<close>, which becomes \<open>0\<close>, and \<open>x / 0\<close> is \<open>\<plusminus>inf\<close>, which becomes
      \<open>\<plusminus>float_max\<close>.\<close>
  "f1_entry p r =
     (let num = 2 * (p * r); den = p + r
      in if den \<noteq> 0 then num / den
         else if num = 0 then 0
         else if 0 < num then float_max
         else - float_max)"

subsection \<open>The report\<close>

record 'a query_metrics =
  candidates :: "'a list"
  ground_truth :: "'a list"
  precision :: "real list"
  recall :: "real list"
  ap :: "real list"

record snapshot =
  precision_at :: real
  recall_at :: real
  map_at :: real
  f1_at :: real

record system_metrics =
  sys_precision :: "real list"
  sys_recall :: "real list"
  sys_map :: "real list"
  sys_f1 :: "real list"
  sys_used_k :: "int list"
  sys_metrics_at_k :: "(int \<times> snapshot) list"

record ('q, 'a) report =
  system_metrics :: system_metrics
  per_query_metrics :: "('q \<times> 'a query_metrics) list"

type_synonym tracker = "(string \<times> real) list"

subsection \<open>\<open>calcMetrics\<close>\<close>

text \<open>The innermost loop (lines 90 to 94): one rank \<open>i\<close> of the average-precision walk.\<close>

definition ap_step :: "'a list \<Rightarrow> 'a set \<Rightarrow> real \<times> int \<Rightarrow> int \<Rightarrow> error + (real \<times> int)" where
  "ap_step current_results gt_set st i =
     (case st of (ap_k, num_relevant_found) \<Rightarrow>
        ebind (py_index current_results (i - 1)) (\<lambda>item.
          if item \<in> gt_set then
            ebind (py_truediv (real_of_int (num_relevant_found + 1)) (real_of_int i))
              (\<lambda>precision_at_i. Inr (ap_k + precision_at_i, num_relevant_found + 1))
          else Inr (ap_k, num_relevant_found)))"

text \<open>
  The body of the loop over the cutoffs \<open>k\<close> (lines 71 to 98). Its state is the record of
  the query under construction and the two running sums.
\<close>

definition k_step ::
  "'a list \<Rightarrow> 'a set \<Rightarrow> int \<Rightarrow> 'a query_metrics \<times> real list \<times> real list \<Rightarrow> int \<Rightarrow>
   error + ('a query_metrics \<times> real list \<times> real list)" where
  "k_step results gt_set total_relevant st k =
     (case st of (query_metrics, system_precision, system_recall) \<Rightarrow>
        let current_results = py_prefix results k;
            result_set = set current_results;
            intersect = result_set \<inter> gt_set
        in
        ebind (if 0 < k then py_truediv (real (card intersect)) (real_of_int k) else Inr 0)
          (\<lambda>p.
        ebind (if 0 < total_relevant
               then py_truediv (real (card intersect)) (real_of_int total_relevant) else Inr 0)
          (\<lambda>r.
        let query_metrics = query_metrics
              \<lparr>precision := precision query_metrics @ [p],
               recall := recall query_metrics @ [r]\<rparr>
        in
        ebind (np_iadd system_precision (k - 1) p) (\<lambda>system_precision.
        ebind (np_iadd system_recall (k - 1) r) (\<lambda>system_recall.
        ebind (for_each (ap_step current_results gt_set) (0, 0) [1..k]) (\<lambda>(ap_k, _).
        let norm = (if 0 < total_relevant then min k total_relevant else 1) in
        ebind (py_truediv ap_k (real_of_int norm)) (\<lambda>ap_k.
        Inr (query_metrics\<lparr>ap := ap query_metrics @ [ap_k]\<rparr>,
             system_precision, system_recall))))))))"

text \<open>
  The body of the loop over the queries (lines 54 to 100). Its state is the two running
  sums and the dictionary \<open>per_query_metrics\<close>.
\<close>

definition query_step ::
  "int \<Rightarrow> ('q \<rightharpoonup> 'a list) \<Rightarrow> real list \<times> real list \<times> ('q \<times> 'a query_metrics) list \<Rightarrow>
   'q \<times> 'a list \<Rightarrow> error + (real list \<times> real list \<times> ('q \<times> 'a query_metrics) list)" where
  "query_step max_k groundtruth st item =
     (let (system_precision, system_recall, per_query_metrics) = st;
          (query_id, results) = item
      in
      case groundtruth query_id of
        None \<Rightarrow> Inr (system_precision, system_recall, per_query_metrics)
      | Some gt \<Rightarrow>
          let query_metrics =
                \<lparr>candidates = results, ground_truth = gt,
                 precision = [], recall = [], ap = []\<rparr>;
              gt_set = set gt;
              total_relevant = int (card gt_set)
          in
          ebind (for_each (k_step results gt_set total_relevant)
                   (query_metrics, system_precision, system_recall) [1..max_k])
            (\<lambda>(query_metrics, system_precision, system_recall).
               Inr (system_precision, system_recall,
                    AList.update query_id query_metrics per_query_metrics)))"

text \<open>The reporting points (lines 114 to 117).\<close>

definition select_used_k :: "int \<Rightarrow> int \<Rightarrow> error + int list" where
  "select_used_k max_k k_range =
     (if k_range < max_k
      then ebind (py_range (k_range * 2) (max_k + 1) k_range) (\<lambda>more. Inr ([k_range] @ more))
      else Inr [k_range])"

text \<open>The snapshot stored for one reporting point (lines 121 to 127).\<close>

definition snapshot_step ::
  "real list \<Rightarrow> real list \<Rightarrow> real list \<Rightarrow> real list \<Rightarrow> (int \<times> snapshot) list \<Rightarrow> int \<Rightarrow>
   error + (int \<times> snapshot) list" where
  "snapshot_step system_precision system_recall system_map system_f1 metrics_at_k k =
     ebind (py_index system_precision (k - 1)) (\<lambda>p.
     ebind (py_index system_recall (k - 1)) (\<lambda>r.
     ebind (py_index system_map (k - 1)) (\<lambda>m.
     ebind (py_index system_f1 (k - 1)) (\<lambda>f.
     Inr (AList.update k \<lparr>precision_at = p, recall_at = r, map_at = m, f1_at = f\<rparr>
            metrics_at_k)))))"

text \<open>The four scalars sent to the experiment tracker (lines 129 to 133).\<close>

definition log_final ::
  "real list \<Rightarrow> real list \<Rightarrow> real list \<Rightarrow> real list \<Rightarrow> tracker \<Rightarrow> error + tracker" where
  "log_final system_precision system_recall system_map system_f1 tracker =
     ebind (py_index system_map (- 1)) (\<lambda>m.
     ebind (py_index system_precision (- 1)) (\<lambda>p.
     ebind (py_index system_recall (- 1)) (\<lambda>r.
     ebind (py_index system_f1 (- 1)) (\<lambda>f.
     Inr (tracker @ [(''mean_avg_precision'', m), (''prec_k'', p),
                     (''recall_k'', r), (''f1_k'', f)])))))"

text \<open>The system-wide averages (lines 103 to 111).\<close>

definition averages ::
  "real list \<Rightarrow> real list \<Rightarrow> real list \<Rightarrow> real list \<Rightarrow> ('q \<times> 'a query_metrics) list \<Rightarrow>
   error + (real list \<times> real list \<times> real list \<times> real list)" where
  "averages system_precision system_recall system_map system_f1 =
     (\<lambda>per_query_metrics.
      let num_queries = length per_query_metrics in
      if 0 < num_queries then
        let system_precision = map (\<lambda>x. x / real num_queries) system_precision;
            system_recall = map (\<lambda>x. x / real num_queries) system_recall
        in
        ebind (np_mean_axis0 (map (\<lambda>(_, metrics). ap metrics) per_query_metrics))
          (\<lambda>system_map.
             let system_f1 = map (\<lambda>(p, r). f1_entry p r) (zip system_precision system_recall)
             in Inr (system_precision, system_recall, system_map, system_f1))
      else Inr (system_precision, system_recall, system_map, system_f1))"

definition calcMetrics ::
  "int \<Rightarrow> int \<Rightarrow> ('q \<times> 'a list) list \<Rightarrow> ('q \<rightharpoonup> 'a list) \<Rightarrow> bool \<Rightarrow> tracker \<Rightarrow>
   error + (('q, 'a) report \<times> tracker)" where
  "calcMetrics max_k k_range resultFile groundtruth record_flag tracker =
     ebind (np_zeros max_k) (\<lambda>system_precision.
     ebind (np_zeros max_k) (\<lambda>system_recall.
     ebind (np_zeros max_k) (\<lambda>system_map.
     ebind (np_zeros max_k) (\<lambda>system_f1.
     ebind (for_each (query_step max_k groundtruth)
              (system_precision, system_recall, []) resultFile)
       (\<lambda>(system_precision, system_recall, per_query_metrics).
     ebind (averages system_precision system_recall system_map system_f1 per_query_metrics)
       (\<lambda>(system_precision, system_recall, system_map, system_f1).
     ebind (select_used_k max_k k_range) (\<lambda>used_k.
     ebind (for_each (snapshot_step system_precision system_recall system_map system_f1)
              [] used_k) (\<lambda>metrics_at_k.
     ebind (if record_flag
            then log_final system_precision system_recall system_map system_f1 tracker
            else Inr tracker) (\<lambda>tracker.
     Inr (\<lparr>system_metrics =
             \<lparr>sys_precision = system_precision, sys_recall = system_recall,
              sys_map = system_map, sys_f1 = system_f1,
              sys_used_k = used_k, sys_metrics_at_k = metrics_at_k\<rparr>,
           per_query_metrics = per_query_metrics\<rparr>, tracker))))))))))"

section \<open>The metrics as the specification words them\<close>

text \<open>
  The average-precision walk of the specification: after the ranks \<open>1..r\<close> the pair
  holds the running sum and the relevant-count; a relevant item at rank \<open>r + 1\<close>
  increments the count and adds count over rank. (The item at rank \<open>r + 1\<close> is
  \<open>xs ! r\<close>, meaningful for \<open>r < length xs\<close>.)
\<close>

fun ap_walk :: "'a list \<Rightarrow> 'a set \<Rightarrow> nat \<Rightarrow> real \<times> nat" where
  "ap_walk xs gt_set 0 = (0, 0)"
| "ap_walk xs gt_set (Suc r) =
     (let (total, found) = ap_walk xs gt_set r
      in if xs ! r \<in> gt_set then (total + real (found + 1) / real (r + 1), found + 1)
         else (total, found))"

text \<open>The sum is divided by \<open>min k total_relevant\<close>, or by \<open>1\<close> when nothing is relevant.\<close>

definition ap_spec :: "'a list \<Rightarrow> 'a set \<Rightarrow> nat \<Rightarrow> real" where
  "ap_spec xs gt_set k =
     fst (ap_walk xs gt_set k) / real (if 0 < card gt_set then min k (card gt_set) else 1)"

text \<open>Precision and recall at a cutoff, as set intersections of the top-\<open>k\<close> prefix.\<close>

definition precision_at_k :: "'a list \<Rightarrow> 'a set \<Rightarrow> nat \<Rightarrow> real" where
  "precision_at_k res gs k = real (card (set (take k res) \<inter> gs)) / real k"

definition recall_at_k :: "'a list \<Rightarrow> 'a set \<Rightarrow> nat \<Rightarrow> real" where
  "recall_at_k res gs k =
     (if 0 < card gs then real (card (set (take k res) \<inter> gs)) / real (card gs) else 0)"

text \<open>The record of one scored query with \<open>m\<close> cutoffs.\<close>

definition qm_of :: "nat \<Rightarrow> 'a list \<Rightarrow> 'a list \<Rightarrow> 'a query_metrics" where
  "qm_of m res g =
     \<lparr>candidates = res, ground_truth = g,
      precision = map (precision_at_k res (set g)) [1..<Suc m],
      recall = map (recall_at_k res (set g)) [1..<Suc m],
      ap = map (ap_spec res (set g)) [1..<Suc m]\<rparr>"

text \<open>
  The queries that are scored (present in both mappings), and the condition under which
  the loops of the source run to their end: every scored candidate list has at least
  \<open>m\<close> elements.
\<close>

definition scored :: "('q \<rightharpoonup> 'a list) \<Rightarrow> ('q \<times> 'a list) list \<Rightarrow> ('q \<times> 'a list) list" where
  "scored gt items = filter (\<lambda>(q, res). gt q \<noteq> None) items"

definition all_long :: "nat \<Rightarrow> ('q \<rightharpoonup> 'a list) \<Rightarrow> ('q \<times> 'a list) list \<Rightarrow> bool" where
  "all_long m gt items = list_all (\<lambda>(q, res). gt q \<noteq> None \<longrightarrow> m \<le> length res) items"

section \<open>Closed forms of the loops\<close>

text \<open>
  Auxiliary functions that describe the state of the loops: an array after the first
  \<open>m\<close> cutoffs have been added, the record after \<open>m\<close> cutoffs, the sums over the
  queries, the dictionary of records, the four system-wide arrays and the snapshot at a
  reporting point.
\<close>

definition add_prefix :: "real list \<Rightarrow> (nat \<Rightarrow> real) \<Rightarrow> nat \<Rightarrow> real list" where
  "add_prefix arr f m = map (\<lambda>i. arr ! i + (if i < m then f (Suc i) else 0)) [0..<length arr]"

definition qm_after :: "'a query_metrics \<Rightarrow> 'a list \<Rightarrow> 'a set \<Rightarrow> nat \<Rightarrow> 'a query_metrics" where
  "qm_after qm res gs m =
     qm\<lparr>precision := precision qm @ map (precision_at_k res gs) [1..<Suc m],
        recall := recall qm @ map (recall_at_k res gs) [1..<Suc m],
        ap := ap qm @ map (ap_spec res gs) [1..<Suc m]\<rparr>"

definition scored_sum ::
  "('q \<rightharpoonup> 'a list) \<Rightarrow> ('a list \<Rightarrow> 'a set \<Rightarrow> nat \<Rightarrow> real) \<Rightarrow> ('q \<times> 'a list) list \<Rightarrow> nat \<Rightarrow> real" where
  "scored_sum gt f items k =
     sum_list (map (\<lambda>(q, res). case gt q of None \<Rightarrow> 0 | Some g \<Rightarrow> f res (set g) k) items)"

definition sums_at ::
  "nat \<Rightarrow> ('q \<rightharpoonup> 'a list) \<Rightarrow> ('a list \<Rightarrow> 'a set \<Rightarrow> nat \<Rightarrow> real) \<Rightarrow> ('q \<times> 'a list) list \<Rightarrow> real list" where
  "sums_at m gt f items = map (\<lambda>i. scored_sum gt f items (Suc i)) [0..<m]"

fun record_all ::
  "nat \<Rightarrow> ('q \<rightharpoonup> 'a list) \<Rightarrow> ('q \<times> 'a query_metrics) list \<Rightarrow> ('q \<times> 'a list) list \<Rightarrow>
   ('q \<times> 'a query_metrics) list" where
  "record_all m gt pqm [] = pqm"
| "record_all m gt pqm ((q, res) # items) =
     record_all m gt
       (case gt q of None \<Rightarrow> pqm | Some g \<Rightarrow> AList.update q (qm_of m res g) pqm) items"

definition system_arrays ::
  "nat \<Rightarrow> ('q \<rightharpoonup> 'a list) \<Rightarrow> ('q \<times> 'a list) list \<Rightarrow>
   real list \<times> real list \<times> real list \<times> real list" where
  "system_arrays m gt items =
     (let pqm = record_all m gt [] items;
          n = real (length pqm);
          sp = sums_at m gt precision_at_k items;
          sr = sums_at m gt recall_at_k items
      in if pqm = [] then (sp, sr, replicate m 0, replicate m 0)
         else (map (\<lambda>x. x / n) sp, map (\<lambda>x. x / n) sr,
               map (\<lambda>j. sum_list (map (\<lambda>(q, qm). ap qm ! j) pqm) / n) [0..<m],
               map (\<lambda>(p, r). f1_entry p r) (zip (map (\<lambda>x. x / n) sp) (map (\<lambda>x. x / n) sr))))"

definition snapshot_of :: "real list \<Rightarrow> real list \<Rightarrow> real list \<Rightarrow> real list \<Rightarrow> int \<Rightarrow> snapshot" where
  "snapshot_of sp sr sm sf k =
     \<lparr>precision_at = sp ! nat (k - 1), recall_at = sr ! nat (k - 1),
      map_at = sm ! nat (k - 1), f1_at = sf ! nat (k - 1)\<rparr>"

section \<open>Example inputs and their reports\<close>

text \<open>
  The example of the specification (one query, candidates \<open>[a, x, b]\<close>, ground truth
  \<open>{a, b, c}\<close>, \<open>max_k = 3\<close>) with the report that the source computes for it; the same
  results with a second query that the ground truth does not hold; a query with ten
  candidates for \<open>max_k = 10\<close>; two inputs whose metrics are all zero: a scored query
  with an empty ground truth, and no scored query at all; and three queries of which two
  are scored, with different metrics, for the means over the scored queries.
\<close>

definition example_results :: "(string \<times> string list) list" where
  "example_results = [(''q'', [''a'', ''x'', ''b''])]"

definition example_groundtruth :: "string \<rightharpoonup> string list" where
  "example_groundtruth = [''q'' \<mapsto> [''a'', ''b'', ''c'']]"

definition example_report :: "(string, string) report" where
  "example_report =
     \<lparr>system_metrics =
        \<lparr>sys_precision = [1, 1 / 2, 2 / 3], sys_recall = [1 / 3, 1 / 3, 2 / 3],
         sys_map = [1, 1 / 2, 5 / 9], sys_f1 = [1 / 2, 2 / 5, 2 / 3],
         sys_used_k = [1, 2, 3],
         sys_metrics_at_k =
           [(1, \<lparr>precision_at = 1, recall_at = 1 / 3, map_at = 1, f1_at = 1 / 2\<rparr>),
            (2, \<lparr>precision_at = 1 / 2, recall_at = 1 / 3, map_at = 1 / 2, f1_at = 2 / 5\<rparr>),
            (3, \<lparr>precision_at = 2 / 3, recall_at = 2 / 3, map_at = 5 / 9, f1_at = 2 / 3\<rparr>)]\<rparr>,
      per_query_metrics =
        [(''q'', \<lparr>candidates = [''a'', ''x'', ''b''], ground_truth = [''a'', ''b'', ''c''],
                  precision = [1, 1 / 2, 2 / 3], recall = [1 / 3, 1 / 3, 2 / 3],
                  ap = [1, 1 / 2, 5 / 9]\<rparr>)]\<rparr>"

definition mixed_results :: "(string \<times> string list) list" where
  "mixed_results = [(''q'', [''a'', ''x'', ''b'']), (''z'', [''a''])]"

definition santos_results :: "(string \<times> string list) list" where
  "santos_results =
     [(''q'', [''a'', ''b'', ''c'', ''d'', ''e'', ''f'', ''g'', ''h'', ''i'', ''j''])]"

definition santos_groundtruth :: "string \<rightharpoonup> string list" where
  "santos_groundtruth = [''q'' \<mapsto> [''a'', ''j'']]"

definition idle_results :: "(string \<times> string list) list" where
  "idle_results = [(''q'', [''a'', ''x'', ''b'']), (''e'', [''c'', ''d'', ''e''])]"

definition idle_groundtruth :: "string \<rightharpoonup> string list" where
  "idle_groundtruth = [''e'' \<mapsto> []]"

definition zero_system :: system_metrics where
  "zero_system =
     \<lparr>sys_precision = [0, 0, 0], sys_recall = [0, 0, 0], sys_map = [0, 0, 0],
      sys_f1 = [0, 0, 0], sys_used_k = [1, 2, 3],
      sys_metrics_at_k =
        [(1, \<lparr>precision_at = 0, recall_at = 0, map_at = 0, f1_at = 0\<rparr>),
         (2, \<lparr>precision_at = 0, recall_at = 0, map_at = 0, f1_at = 0\<rparr>),
         (3, \<lparr>precision_at = 0, recall_at = 0, map_at = 0, f1_at = 0\<rparr>)]\<rparr>"

definition idle_report :: "(string, string) report" where
  "idle_report =
     \<lparr>system_metrics = zero_system,
      per_query_metrics =
        [(''e'', \<lparr>candidates = [''c'', ''d'', ''e''], ground_truth = [],
                  precision = [0, 0, 0], recall = [0, 0, 0], ap = [0, 0, 0]\<rparr>)]\<rparr>"

definition unscored_report :: "(string, string) report" where
  "unscored_report = \<lparr>system_metrics = zero_system, per_query_metrics = []\<rparr>"

definition pair_results :: "(string \<times> string list) list" where
  "pair_results = [(''q1'', [''a'', ''x'']), (''z'', [''a'', ''b'']), (''q2'', [''y'', ''b''])]"

definition pair_groundtruth :: "string \<rightharpoonup> string list" where
  "pair_groundtruth = [''q1'' \<mapsto> [''a''], ''q2'' \<mapsto> [''b'']]"

definition pair_report :: "(string, string) report" where
  "pair_report =
     \<lparr>system_metrics =
        \<lparr>sys_precision = [1 / 2, 1 / 2], sys_recall = [1 / 2, 1], sys_map = [1 / 2, 3 / 4],
         sys_f1 = [1 / 2, 2 / 3], sys_used_k = [1, 2],
         sys_metrics_at_k =
           [(1, \<lparr>precision_at = 1 / 2, recall_at = 1 / 2, map_at = 1 / 2, f1_at = 1 / 2\<rparr>),
            (2, \<lparr>precision_at = 1 / 2, recall_at = 1, map_at = 3 / 4, f1_at = 2 / 3\<rparr>)]\<rparr>,
      per_query_metrics =
        [(''q1'', \<lparr>candidates = [''a'', ''x''], ground_truth = [''a''],
                   precision = [1, 1 / 2], recall = [1, 1], ap = [1, 1]\<rparr>),
         (''q2'', \<lparr>candidates = [''y'', ''b''], ground_truth = [''b''],
                   precision = [0, 1 / 2], recall = [0, 1], ap = [0, 1 / 2]\<rparr>)]\<rparr>"

section \<open>Basic facts about the primitives\<close>

lemma ebind_Inl [simp]: "ebind (Inl e) f = Inl e"
  by (simp add: ebind_def)

lemma ebind_Inr [simp]: "ebind (Inr x) f = f x"
  by (simp add: ebind_def)

lemma py_index_nat:
  "py_index xs (int n) = (if n < length xs then Inr (xs ! n) else Inl IndexError)"
  by (simp add: py_index_def wrap_index_def)

lemma for_each_append:
  "for_each body s (xs @ ys) = ebind (for_each body s xs) (\<lambda>s'. for_each body s' ys)"
  by (induction xs arbitrary: s) (auto split: sum.splits)

lemma upto_Suc_right: "[1..int (Suc m)] = [1..int m] @ [int (Suc m)]"
  using upto_rec2 [of 1 "int (Suc m)"] by (simp add: add.commute)

section \<open>The loops in closed form\<close>

subsection \<open>The average-precision loop\<close>

lemma ap_walk_take: "r \<le> k \<Longrightarrow> ap_walk (take k xs) gs r = ap_walk xs gs r"
  by (induction r) (auto simp: Let_def split: prod.splits)

lemma ap_loop_ok:
  "k \<le> length cur \<Longrightarrow>
   for_each (ap_step cur gs) (0, 0) [1..int k] =
     Inr (fst (ap_walk cur gs k), int (snd (ap_walk cur gs k)))"
proof (induction k)
  case 0
  then show ?case by simp
next
  case (Suc k)
  then have ih: "for_each (ap_step cur gs) (0, 0) [1..int k] =
     Inr (fst (ap_walk cur gs k), int (snd (ap_walk cur gs k)))" by simp
  have idx: "py_index cur (int k) = Inr (cur ! k)"
    using Suc.prems by (simp add: py_index_nat)
  show ?case
    unfolding upto_Suc_right for_each_append ih
    by (simp add: ap_step_def idx py_truediv_def Let_def add.commute split: prod.splits)
qed

lemma ap_loop_fail:
  assumes "length cur < k"
  shows "for_each (ap_step cur gs) (0, 0) [1..int k] = Inl IndexError"
proof -
  let ?n = "length cur"
  have split: "[1..int k] = [1..int ?n] @ (int ?n + 1) # [int ?n + 2..int k]"
    using assms upto_split3 [of 1 "int ?n + 1" "int k"] by (simp add: add.commute)
  have idx: "py_index cur (int ?n) = Inl IndexError"
    by (simp add: py_index_nat)
  show ?thesis
    unfolding split for_each_append
    by (simp add: ap_loop_ok ap_step_def idx)
qed

subsection \<open>The loop over the cutoffs\<close>

lemma length_add_prefix [simp]: "length (add_prefix arr f m) = length arr"
  by (simp add: add_prefix_def)

lemma add_prefix_0 [simp]: "add_prefix arr f 0 = arr"
  by (simp add: add_prefix_def map_nth)

lemma add_prefix_Suc:
  "m < length arr \<Longrightarrow>
   (add_prefix arr f m)[m := add_prefix arr f m ! m + f (Suc m)] = add_prefix arr f (Suc m)"
  by (rule nth_equalityI) (auto simp: add_prefix_def nth_list_update)

lemma np_iadd_nat:
  "np_iadd arr (int k) v = (if k < length arr then Inr (arr[k := arr ! k + v]) else Inl IndexError)"
  by (simp add: np_iadd_def wrap_index_def)

lemma py_prefix_nat: "py_prefix xs (int k) = take k xs"
  by (simp add: py_prefix_def)

lemma k_step_closed:
  assumes "k < length sp" and "k < length sr"
  shows "k_step res gs (int (card gs)) (qm, sp, sr) (int (Suc k)) =
     (if Suc k \<le> length res
      then Inr (qm\<lparr>precision := precision qm @ [precision_at_k res gs (Suc k)],
                   recall := recall qm @ [recall_at_k res gs (Suc k)],
                   ap := ap qm @ [ap_spec res gs (Suc k)]\<rparr>,
                sp[k := sp ! k + precision_at_k res gs (Suc k)],
                sr[k := sr ! k + recall_at_k res gs (Suc k)])
      else Inl IndexError)"
proof (cases "Suc k \<le> length res")
  case True
  then have loop: "for_each (ap_step (take (Suc k) res) gs) (0, 0) [1..int (Suc k)] =
      Inr (fst (ap_walk res gs (Suc k)), int (snd (ap_walk res gs (Suc k))))"
    using ap_loop_ok [of "Suc k" "take (Suc k) res" gs] by (simp add: ap_walk_take)
  have norm: "real_of_int (if 0 < int (card gs) then min (int (Suc k)) (int (card gs)) else 1)
      = real (if 0 < card gs then min (Suc k) (card gs) else 1)"
    by (auto simp: min_def)
  have nz: "real (if 0 < card gs then min (Suc k) (card gs) else 1) \<noteq> 0"
    by simp
  have idx: "int (Suc k) - 1 = int k" by simp
  show ?thesis
    unfolding k_step_def Let_def py_prefix_nat loop norm idx
    using assms True nz
    by (simp add: py_truediv_def np_iadd_nat precision_at_k_def recall_at_k_def ap_spec_def
        del: of_nat_Suc of_nat_min)
next
  case False
  then have loop: "for_each (ap_step (take (Suc k) res) gs) (0, 0) [1..int (Suc k)] =
      Inl IndexError"
    using ap_loop_fail [of "take (Suc k) res" "Suc k" gs] by simp
  have idx: "int (Suc k) - 1 = int k" by simp
  show ?thesis
    unfolding k_step_def Let_def py_prefix_nat loop idx
    using assms False
    by (simp add: py_truediv_def np_iadd_nat del: of_nat_Suc)
qed

lemma qm_after_0 [simp]: "qm_after qm res gs 0 = qm"
  by (simp add: qm_after_def)

lemma k_loop_closed:
  assumes "m \<le> length sp" and "m \<le> length sr"
  shows "for_each (k_step res gs (int (card gs))) (qm, sp, sr) [1..int m] =
     (if m \<le> length res
      then Inr (qm_after qm res gs m, add_prefix sp (precision_at_k res gs) m,
                add_prefix sr (recall_at_k res gs) m)
      else Inl IndexError)"
  using assms
proof (induction m)
  case 0
  then show ?case by simp
next
  case (Suc m)
  then have ih: "for_each (k_step res gs (int (card gs))) (qm, sp, sr) [1..int m] =
     (if m \<le> length res
      then Inr (qm_after qm res gs m, add_prefix sp (precision_at_k res gs) m,
                add_prefix sr (recall_at_k res gs) m)
      else Inl IndexError)"
    by simp
  show ?case
  proof (cases "m \<le> length res")
    case True
    have step: "k_step res gs (int (card gs))
        (qm_after qm res gs m, add_prefix sp (precision_at_k res gs) m,
         add_prefix sr (recall_at_k res gs) m) (int (Suc m)) =
       (if Suc m \<le> length res
        then Inr (qm_after qm res gs (Suc m), add_prefix sp (precision_at_k res gs) (Suc m),
                  add_prefix sr (recall_at_k res gs) (Suc m))
        else Inl IndexError)"
      using Suc.prems
      by (subst k_step_closed) (simp_all add: add_prefix_Suc qm_after_def)
    show ?thesis
      unfolding upto_Suc_right for_each_append ih
      using True by (simp add: step del: of_nat_Suc)
  next
    case False
    show ?thesis
      unfolding upto_Suc_right for_each_append ih
      using False by simp
  qed
qed

subsection \<open>The loop over the queries\<close>

lemma nth_add_prefix:
  "i < length arr \<Longrightarrow> add_prefix arr f m ! i = arr ! i + (if i < m then f (Suc i) else 0)"
  by (simp add: add_prefix_def)

lemma add_prefix_twice:
  "add_prefix (add_prefix arr f m) g m = add_prefix arr (\<lambda>k. f k + g k) m"
  by (rule nth_equalityI) (auto simp: nth_add_prefix)

lemma add_prefix_zero: "add_prefix arr (\<lambda>k. 0) m = arr"
  by (rule nth_equalityI) (auto simp: nth_add_prefix)

lemma query_step_closed:
  assumes "length sp = m" and "length sr = m"
  shows "query_step (int m) gt (sp, sr, pqm) (q, res) =
     (case gt q of
        None \<Rightarrow> Inr (sp, sr, pqm)
      | Some g \<Rightarrow>
          if m \<le> length res
          then Inr (add_prefix sp (precision_at_k res (set g)) m,
                    add_prefix sr (recall_at_k res (set g)) m,
                    AList.update q (qm_of m res g) pqm)
          else Inl IndexError)"
proof (cases "gt q")
  case None
  then show ?thesis by (simp add: query_step_def)
next
  case (Some g)
  have loop: "for_each (k_step res (set g) (int (card (set g))))
       (\<lparr>candidates = res, ground_truth = g, precision = [], recall = [], ap = []\<rparr>, sp, sr)
       [1..int m] =
     (if m \<le> length res
      then Inr (qm_of m res g, add_prefix sp (precision_at_k res (set g)) m,
                add_prefix sr (recall_at_k res (set g)) m)
      else Inl IndexError)"
    using assms by (subst k_loop_closed) (simp_all add: qm_after_def qm_of_def)
  show ?thesis
    unfolding query_step_def Let_def
    by (simp add: Some loop)
qed

lemma scored_sum_Nil [simp]: "scored_sum gt f [] = (\<lambda>k. 0)"
  by (rule ext) (simp add: scored_sum_def)

lemma scored_sum_Cons:
  "scored_sum gt f ((q, res) # items) =
     (\<lambda>k. (case gt q of None \<Rightarrow> 0 | Some g \<Rightarrow> f res (set g) k) + scored_sum gt f items k)"
  by (rule ext) (simp add: scored_sum_def)

lemma query_loop_closed:
  assumes "length sp = m" and "length sr = m"
  shows "for_each (query_step (int m) gt) (sp, sr, pqm) items =
     (if all_long m gt items
      then Inr (add_prefix sp (scored_sum gt precision_at_k items) m,
                add_prefix sr (scored_sum gt recall_at_k items) m,
                record_all m gt pqm items)
      else Inl IndexError)"
  using assms
proof (induction items arbitrary: sp sr pqm)
  case Nil
  then show ?case by (simp add: all_long_def add_prefix_zero)
next
  case (Cons item items)
  obtain q res where item: "item = (q, res)" by (cases item)
  show ?case
  proof (cases "gt q")
    case None
    then show ?thesis
      using Cons.prems Cons.IH [of sp sr pqm]
      by (simp add: item query_step_closed all_long_def scored_sum_Cons)
  next
    case (Some g)
    show ?thesis
    proof (cases "m \<le> length res")
      case True
      then show ?thesis
        using Cons.prems Some
          Cons.IH [of "add_prefix sp (precision_at_k res (set g)) m"
            "add_prefix sr (recall_at_k res (set g)) m" "AList.update q (qm_of m res g) pqm"]
        by (simp add: item query_step_closed all_long_def scored_sum_Cons add_prefix_twice)
    next
      case False
      then show ?thesis
        using Cons.prems Some
        by (simp add: item query_step_closed all_long_def)
    qed
  qed
qed

lemma update_fresh: "k \<notin> fst ` set al \<Longrightarrow> AList.update k v al = al @ [(k, v)]"
  by (induction al) auto

lemma record_all_distinct:
  assumes "distinct (map fst items)" and "fst ` set pqm \<inter> fst ` set items = {}"
  shows "record_all m gt pqm items =
     pqm @ map (\<lambda>(q, res). (q, qm_of m res (the (gt q)))) (scored gt items)"
  using assms
proof (induction items arbitrary: pqm)
  case Nil
  then show ?case by (simp add: scored_def)
next
  case (Cons item items)
  obtain q res where item: "item = (q, res)" by (cases item)
  have fresh: "q \<notin> fst ` set pqm" using Cons.prems(2) by (auto simp: item)
  have dist: "distinct (map fst items)" and notin: "q \<notin> fst ` set items"
    using Cons.prems(1) by (auto simp: item)
  show ?case
  proof (cases "gt q")
    case None
    have "fst ` set pqm \<inter> fst ` set items = {}" using Cons.prems(2) by auto
    from Cons.IH [OF dist this] show ?thesis
      by (simp add: item None scored_def)
  next
    case (Some g)
    have "fst ` set (AList.update q (qm_of m res g) pqm) \<inter> fst ` set items = {}"
      using Cons.prems(2) notin by (auto simp: dom_update)
    from Cons.IH [OF dist this] show ?thesis
      by (simp add: item Some scored_def update_fresh [OF fresh])
  qed
qed

lemma record_all_entries:
  "(q, qm) \<in> set (record_all m gt pqm items) \<Longrightarrow>
   (q, qm) \<in> set pqm \<or> (\<exists>res g. (q, res) \<in> set items \<and> gt q = Some g \<and> qm = qm_of m res g)"
proof (induction items arbitrary: pqm)
  case Nil
  then show ?case by simp
next
  case (Cons item items)
  obtain q' res' where item: "item = (q', res')" by (cases item)
  have upd: "set (AList.update k v al) \<subseteq> insert (k, v) (set al)" for k and v :: "'b query_metrics" and al :: "('a \<times> 'b query_metrics) list"
    by (induction al) auto
  from Cons.prems have mem: "(q, qm) \<in> set (record_all m gt
       (case gt q' of None \<Rightarrow> pqm | Some g \<Rightarrow> AList.update q' (qm_of m res' g) pqm) items)"
    by (simp add: item)
  from Cons.IH [OF mem] show ?case
    using upd [of q' _ pqm] by (cases "gt q'") (auto simp: item)
qed

subsection \<open>The whole function\<close>

lemma add_prefix_replicate:
  "add_prefix (replicate m 0) f m = map (\<lambda>i. f (Suc i)) [0..<m]"
  by (simp add: add_prefix_def)

lemma calcMetrics_closed:
  "calcMetrics max_k k_range items gt rf tr =
     (if max_k < 0 then Inl ValueError
      else if \<not> all_long (nat max_k) gt items then Inl IndexError
      else
        ebind (averages (sums_at (nat max_k) gt precision_at_k items)
                 (sums_at (nat max_k) gt recall_at_k items)
                 (replicate (nat max_k) 0) (replicate (nat max_k) 0)
                 (record_all (nat max_k) gt [] items))
          (\<lambda>(sp, sr, sm, sf).
        ebind (select_used_k max_k k_range) (\<lambda>used.
        ebind (for_each (snapshot_step sp sr sm sf) [] used) (\<lambda>mk.
        ebind (if rf then log_final sp sr sm sf tr else Inr tr) (\<lambda>tr'.
        Inr (\<lparr>system_metrics =
                \<lparr>sys_precision = sp, sys_recall = sr, sys_map = sm, sys_f1 = sf,
                 sys_used_k = used, sys_metrics_at_k = mk\<rparr>,
              per_query_metrics = record_all (nat max_k) gt [] items\<rparr>, tr'))))))"
proof (cases "max_k < 0")
  case True
  then show ?thesis by (simp add: calcMetrics_def np_zeros_def)
next
  case False
  define m where "m = nat max_k"
  have mk: "max_k = int m" using False by (simp add: m_def)
  have zeros: "np_zeros (int m) = Inr (replicate m 0)" by (simp add: np_zeros_def)
  have loop: "for_each (query_step (int m) gt) (replicate m 0, replicate m 0, []) items =
     (if all_long m gt items
      then Inr (sums_at m gt precision_at_k items, sums_at m gt recall_at_k items,
                record_all m gt [] items)
      else Inl IndexError)"
    by (subst query_loop_closed [where m = m]) (simp_all add: add_prefix_replicate sums_at_def)
  show ?thesis
    unfolding mk calcMetrics_def zeros
    by (simp add: loop)
qed

lemma np_mean_axis0_closed:
  assumes "rows \<noteq> []" and "\<forall>row \<in> set rows. length row = m"
  shows "np_mean_axis0 rows =
     Inr (map (\<lambda>j. sum_list (map (\<lambda>row. row ! j) rows) / real (length rows)) [0..<m])"
proof (cases rows)
  case Nil
  with assms show ?thesis by simp
next
  case (Cons row0 rest)
  with assms have "length row0 = m" and "list_all (\<lambda>row. length row = length row0) rows"
    by (auto simp: list_all_iff)
  then show ?thesis
    unfolding np_mean_axis0_def by (simp add: Cons)
qed

lemma length_ap_qm_of [simp]: "length (ap (qm_of m res g)) = m"
  by (simp add: qm_of_def)

lemma record_all_ap_length:
  "(q, qm) \<in> set (record_all m gt [] items) \<Longrightarrow> length (ap qm) = m"
  using record_all_entries [of q qm m gt "[]" items] by auto

lemma averages_closed:
  "averages (sums_at m gt precision_at_k items) (sums_at m gt recall_at_k items)
     (replicate m 0) (replicate m 0) (record_all m gt [] items) =
   Inr (system_arrays m gt items)"
proof (cases "record_all m gt [] items = []")
  case True
  then show ?thesis by (simp add: averages_def system_arrays_def)
next
  case False
  let ?pqm = "record_all m gt [] items"
  have mean: "np_mean_axis0 (map (\<lambda>(_, metrics). ap metrics) ?pqm) =
     Inr (map (\<lambda>j. sum_list (map (\<lambda>row. row ! j) (map (\<lambda>(_, metrics). ap metrics) ?pqm)) /
            real (length (map (\<lambda>(_, metrics). ap metrics) ?pqm))) [0..<m])"
    using False by (intro np_mean_axis0_closed) (auto dest: record_all_ap_length)
  have comp: "map (\<lambda>row. row ! j) (map (\<lambda>(_, metrics). ap metrics) ?pqm) =
      map (\<lambda>(q, qm). ap qm ! j) ?pqm" for j
    by (simp add: case_prod_unfold comp_def)
  show ?thesis
    unfolding averages_def Let_def mean
    using False by (simp add: system_arrays_def Let_def case_prod_unfold comp_def)
qed

lemma calcMetrics_closed':
  "calcMetrics max_k k_range items gt rf tr =
     (if max_k < 0 then Inl ValueError
      else if \<not> all_long (nat max_k) gt items then Inl IndexError
      else
        case system_arrays (nat max_k) gt items of (sp, sr, sm, sf) \<Rightarrow>
        ebind (select_used_k max_k k_range) (\<lambda>used.
        ebind (for_each (snapshot_step sp sr sm sf) [] used) (\<lambda>mk.
        ebind (if rf then log_final sp sr sm sf tr else Inr tr) (\<lambda>tr'.
        Inr (\<lparr>system_metrics =
                \<lparr>sys_precision = sp, sys_recall = sr, sys_map = sm, sys_f1 = sf,
                 sys_used_k = used, sys_metrics_at_k = mk\<rparr>,
              per_query_metrics = record_all (nat max_k) gt [] items\<rparr>, tr')))))"
  unfolding calcMetrics_closed averages_closed by simp

lemma calcMetrics_InrD:
  assumes "calcMetrics max_k k_range items gt rf tr = Inr (rep, tr')"
  shows "0 \<le> max_k"
    and "all_long (nat max_k) gt items"
    and "per_query_metrics rep = record_all (nat max_k) gt [] items"
    and "system_arrays (nat max_k) gt items =
           (sys_precision (system_metrics rep), sys_recall (system_metrics rep),
            sys_map (system_metrics rep), sys_f1 (system_metrics rep))"
    and "select_used_k max_k k_range = Inr (sys_used_k (system_metrics rep))"
    and "for_each (snapshot_step (sys_precision (system_metrics rep))
            (sys_recall (system_metrics rep)) (sys_map (system_metrics rep))
            (sys_f1 (system_metrics rep))) [] (sys_used_k (system_metrics rep)) =
         Inr (sys_metrics_at_k (system_metrics rep))"
  using assms unfolding calcMetrics_closed'
  by (auto simp: ebind_def split: if_splits prod.splits sum.splits)

subsection \<open>The records of the scored queries\<close>

lemma scored_entry:
  assumes "distinct (map fst items)" and "(q, res) \<in> set items" and "gt q = Some g"
  shows "map_of (record_all m gt [] items) q = Some (qm_of m res g)"
proof -
  let ?f = "\<lambda>(q, res). (q, qm_of m res (the (gt q)))"
  have eq: "record_all m gt [] items = map ?f (scored gt items)"
    using record_all_distinct [OF assms(1), of "[]" m gt] by simp
  have keys: "map fst (map ?f (scored gt items)) = map fst (scored gt items)"
    by (simp add: case_prod_unfold comp_def)
  have "distinct (map fst (scored gt items))"
    using assms(1) by (simp add: scored_def distinct_map_filter)
  then have dist: "distinct (map fst (map ?f (scored gt items)))"
    by (simp only: keys)
  have "(q, res) \<in> set (scored gt items)"
    using assms(2,3) by (simp add: scored_def)
  then have "(q, qm_of m res g) \<in> set (map ?f (scored gt items))"
    using assms(3) by (force simp: image_iff)
  from map_of_is_SomeI [OF dist this] show ?thesis
    by (simp only: eq)
qed

lemma nth_cutoffs: "i < m \<Longrightarrow> map f [1..<Suc m] ! i = f (Suc i)"
  using nth_map_upt [of i "Suc m" 1 f] by simp

lemma qm_of_simps [simp]:
  "candidates (qm_of m res g) = res"
  "ground_truth (qm_of m res g) = g"
  "length (precision (qm_of m res g)) = m"
  "length (recall (qm_of m res g)) = m"
  "i < m \<Longrightarrow> precision (qm_of m res g) ! i = precision_at_k res (set g) (Suc i)"
  "i < m \<Longrightarrow> recall (qm_of m res g) ! i = recall_at_k res (set g) (Suc i)"
  "i < m \<Longrightarrow> ap (qm_of m res g) ! i = ap_spec res (set g) (Suc i)"
  by (simp_all add: qm_of_def nth_cutoffs del: upt_Suc)

lemma all_long_entry:
  "all_long m gt items \<Longrightarrow> (q, res) \<in> set items \<Longrightarrow> gt q = Some g \<Longrightarrow> m \<le> length res"
  by (auto simp: all_long_def list_all_iff)

subsection \<open>Bounds on the per-query metrics\<close>

lemma precision_at_k_bounds:
  "0 \<le> precision_at_k res gs k" "precision_at_k res gs k \<le> 1"
proof -
  show "0 \<le> precision_at_k res gs k" by (simp add: precision_at_k_def)
  have "card (set (take k res) \<inter> gs) \<le> card (set (take k res))"
    by (intro card_mono) auto
  also have "\<dots> \<le> length (take k res)" by (rule card_length)
  also have "\<dots> \<le> k" by simp
  finally show "precision_at_k res gs k \<le> 1"
    by (cases "k = 0") (simp_all add: precision_at_k_def)
qed

lemma recall_at_k_bounds:
  "0 \<le> recall_at_k res gs k" "recall_at_k res gs k \<le> 1"
proof -
  show "0 \<le> recall_at_k res gs k" by (simp add: recall_at_k_def)
  show "recall_at_k res gs k \<le> 1"
  proof (cases "0 < card gs")
    case True
    then have "finite gs" by (simp add: card_gt_0_iff)
    then have "card (set (take k res) \<inter> gs) \<le> card gs"
      by (intro card_mono) auto
    with True show ?thesis by (simp add: recall_at_k_def)
  next
    case False
    then show ?thesis by (simp add: recall_at_k_def)
  qed
qed

lemma recall_at_k_mono: "recall_at_k res gs k \<le> recall_at_k res gs (Suc k)"
proof (cases "0 < card gs")
  case True
  have "set (take k res) \<subseteq> set (take (Suc k) res)"
    by (rule set_take_subset_set_take) simp
  then have "card (set (take k res) \<inter> gs) \<le> card (set (take (Suc k) res) \<inter> gs)"
    by (intro card_mono) auto
  with True show ?thesis by (simp add: recall_at_k_def divide_right_mono)
next
  case False
  then show ?thesis by (simp add: recall_at_k_def)
qed

lemma ap_walk_nonneg: "0 \<le> fst (ap_walk xs gs r)"
  by (induction r) (auto simp: Let_def split: prod.splits)

lemma ap_walk_found_le: "snd (ap_walk xs gs r) \<le> r"
  by (induction r) (auto simp: Let_def split: prod.splits)

lemma ap_walk_sum_le: "fst (ap_walk xs gs r) \<le> real (snd (ap_walk xs gs r))"
proof (induction r)
  case 0
  then show ?case by simp
next
  case (Suc r)
  obtain total found where w: "ap_walk xs gs r = (total, found)" by (cases "ap_walk xs gs r")
  define x where "x = real (found + 1) / real (r + 1)"
  have "found \<le> r" using ap_walk_found_le [of xs gs r] by (simp add: w)
  then have step: "x \<le> 1" by (simp add: x_def)
  have ih: "total \<le> real found" using Suc by (simp add: w)
  show ?case
  proof (cases "xs ! r \<in> gs")
    case True
    then have "ap_walk xs gs (Suc r) = (total + x, found + 1)"
      by (simp add: w x_def)
    moreover have "total + x \<le> real (found + 1)" using step ih by simp
    ultimately show ?thesis by simp
  next
    case False
    then show ?thesis using ih by (simp add: w)
  qed
qed

lemma ap_walk_found:
  "r \<le> length xs \<Longrightarrow> snd (ap_walk xs gs r) = length (filter (\<lambda>x. x \<in> gs) (take r xs))"
  by (induction r) (auto simp: Let_def take_Suc_conv_app_nth split: prod.splits)

lemma ap_spec_nonneg: "0 \<le> ap_spec xs gs k"
  by (simp add: ap_spec_def ap_walk_nonneg)

lemma ap_spec_le_1:
  assumes "k \<le> length xs" and "distinct (take k xs)" and "finite gs"
  shows "ap_spec xs gs k \<le> 1"
proof -
  let ?hits = "filter (\<lambda>x. x \<in> gs) (take k xs)"
  have found: "snd (ap_walk xs gs k) = length ?hits"
    using assms(1) by (rule ap_walk_found)
  have "distinct ?hits" using assms(2) by simp
  then have "length ?hits = card (set ?hits)" by (rule distinct_card [symmetric])
  also have "\<dots> \<le> card gs" using assms(3) by (intro card_mono) auto
  finally have le_gs: "snd (ap_walk xs gs k) \<le> card gs" by (simp add: found)
  have le_k: "snd (ap_walk xs gs k) \<le> k" by (rule ap_walk_found_le)
  have le: "fst (ap_walk xs gs k) \<le> real (snd (ap_walk xs gs k))" by (rule ap_walk_sum_le)
  show ?thesis
  proof (cases "0 < card gs")
    case True
    have "snd (ap_walk xs gs k) \<le> min k (card gs)" using le_gs le_k by simp
    then have "fst (ap_walk xs gs k) \<le> real (min k (card gs))" using le by linarith
    moreover have "0 < k \<or> fst (ap_walk xs gs k) = 0" by (cases k) auto
    ultimately show ?thesis using True
      by (auto simp: ap_spec_def simp del: of_nat_min)
  next
    case False
    with le_gs le ap_walk_nonneg [of xs gs k] show ?thesis by (simp add: ap_spec_def)
  qed
qed

lemma scored_query_record:
  assumes "distinct (map fst resultFile)"
    and "(query_id, results) \<in> set resultFile"
    and "groundtruth query_id = Some gt"
    and "calcMetrics max_k k_range resultFile groundtruth record_flag tracker = Inr (rep, tracker')"
  shows "map_of (per_query_metrics rep) query_id = Some (qm_of (nat max_k) results gt)"
    and "nat max_k \<le> length results"
proof -
  show "map_of (per_query_metrics rep) query_id = Some (qm_of (nat max_k) results gt)"
    using calcMetrics_InrD(3) [OF assms(4)]
      scored_entry [of resultFile query_id results groundtruth gt "nat max_k"] assms(1-3)
    by simp
  show "nat max_k \<le> length results"
    using calcMetrics_InrD(2) [OF assms(4)] assms(2,3) by (rule all_long_entry)
qed

subsection \<open>Reporting points and snapshots\<close>

lemma system_arrays_length:
  assumes "system_arrays m gt items = (sp, sr, sm, sf)"
  shows "length sp = m" and "length sr = m" and "length sm = m" and "length sf = m"
  using assms by (auto simp: system_arrays_def sums_at_def Let_def split: if_splits)

lemma py_index_pos:
  "1 \<le> k \<Longrightarrow>
   py_index xs (k - 1) = (if k \<le> int (length xs) then Inr (xs ! nat (k - 1)) else Inl IndexError)"
  by (simp add: py_index_def wrap_index_def)

lemma snapshot_step_closed:
  assumes "1 \<le> k" and "length sp = m" and "length sr = m" and "length sm = m" and "length sf = m"
  shows "snapshot_step sp sr sm sf acc k =
     (if k \<le> int m then Inr (AList.update k (snapshot_of sp sr sm sf k) acc)
      else Inl IndexError)"
  using assms by (simp add: snapshot_step_def py_index_pos snapshot_of_def)

lemma snapshot_loop_ok:
  assumes "length sp = m" and "length sr = m" and "length sm = m" and "length sf = m"
    and "\<forall>k \<in> set ks. 1 \<le> k \<and> k \<le> int m"
  shows "\<exists>mk. for_each (snapshot_step sp sr sm sf) acc ks = Inr mk"
  using assms(5)
proof (induction ks arbitrary: acc)
  case Nil
  then show ?case by simp
next
  case (Cons k ks)
  then show ?case
    by (simp add: snapshot_step_closed [OF _ assms(1-4)])
qed

lemma snapshot_loop_lookup:
  assumes "length sp = m" and "length sr = m" and "length sm = m" and "length sf = m"
    and "\<forall>k \<in> set ks. 1 \<le> k"
    and "for_each (snapshot_step sp sr sm sf) acc ks = Inr mk"
  shows "(\<forall>k \<in> set ks. k \<le> int m) \<and>
         map_of mk = (\<lambda>k. if k \<in> set ks then Some (snapshot_of sp sr sm sf k) else map_of acc k)"
  using assms(5,6)
proof (induction ks arbitrary: acc)
  case Nil
  then show ?case by simp
next
  case (Cons k ks)
  from Cons.prems have k: "1 \<le> k" and rest: "\<forall>k \<in> set ks. 1 \<le> k" by simp_all
  from Cons.prems(2) have le: "k \<le> int m"
    and loop: "for_each (snapshot_step sp sr sm sf)
                 (AList.update k (snapshot_of sp sr sm sf k) acc) ks = Inr mk"
    by (simp_all add: snapshot_step_closed [OF k assms(1-4)] split: if_splits)
  from Cons.IH [OF rest loop] le show ?case
    by (auto simp: update_conv' fun_eq_iff)
qed

lemma select_used_k_head:
  "select_used_k max_k k_range = Inr used \<Longrightarrow> \<exists>more. used = k_range # more"
  by (auto simp: select_used_k_def py_range_def split: if_splits)

lemma select_used_k_closed:
  assumes "0 < k_range" and "k_range \<le> max_k"
  shows "select_used_k max_k k_range =
     Inr (map (\<lambda>j. int j * k_range) [1..<Suc (nat (max_k div k_range))])"
proof -
  define n where "n = nat (max_k div k_range)"
  have "1 \<le> max_k div k_range"
    using zdiv_mono1 [of k_range max_k k_range] assms by simp
  then have n: "0 < n" and n_int: "int n = max_k div k_range" by (simp_all add: n_def)
  have cnt: "(max_k + 1 - k_range * 2 + k_range - 1) div k_range = int n - 1"
  proof -
    have "(max_k + 1 - k_range * 2 + k_range - 1) = max_k + (- 1) * k_range" by simp
    then have "(max_k + 1 - k_range * 2 + k_range - 1) div k_range = max_k div k_range + (- 1)"
      using assms(1) by (simp only: div_mult_self1)
    then show ?thesis by (simp add: n_int)
  qed
  have shift: "[1..<Suc n] = 1 # map (\<lambda>j. j + 2) [0..<n - 1]"
  proof -
    have "[1..<Suc n] = 1 # [2..<Suc n]" using n by (simp add: upt_conv_Cons numeral_2_eq_2)
    moreover have "[2..<Suc n] = map (\<lambda>j. j + 2) [0..<n - 1]"
      using n map_add_upt [of 2 "n - 1"] by (simp add: add.commute)
    ultimately show ?thesis by simp
  qed
  show ?thesis
  proof (cases "k_range < max_k")
    case True
    have rhs: "map (\<lambda>j. int j * k_range) [1..<Suc n] =
        k_range # map (\<lambda>j. k_range * 2 + int j * k_range) [0..<n - 1]"
      unfolding shift by (simp add: algebra_simps comp_def)
    have lhs: "select_used_k max_k k_range =
        Inr (k_range # map (\<lambda>j. k_range * 2 + int j * k_range) [0..<n - 1])"
    proof -
      have "nat (int n - 1) = n - 1" by simp
      then show ?thesis
        unfolding select_used_k_def py_range_def cnt using True assms(1) by simp
    qed
    show ?thesis
      unfolding n_def [symmetric] by (simp only: lhs rhs)
  next
    case False
    with assms have "max_k = k_range" by simp
    then show ?thesis using assms(1) by (simp add: select_used_k_def)
  qed
qed

lemma multiples_set:
  assumes "0 < (kr :: int)"
  shows "set (map (\<lambda>j. int j * kr) [1..<Suc (nat (m div kr))]) =
           {k. kr dvd k \<and> kr \<le> k \<and> k \<le> m}"
proof (intro set_eqI iffI)
  fix k assume "k \<in> set (map (\<lambda>j. int j * kr) [1..<Suc (nat (m div kr))])"
  then obtain j where j: "1 \<le> j" "j \<le> nat (m div kr)" and k: "k = int j * kr" by auto
  have "int j \<le> m div kr" using j by linarith
  then have "int j * kr \<le> (m div kr) * kr" using assms by (simp add: mult_right_mono)
  also have "\<dots> \<le> m" using assms by (metis mult.commute pos_mod_sign mult_div_mod_eq add_increasing2 order_refl)
  finally have "k \<le> m" by (simp add: k)
  moreover have "kr \<le> k" using j(1) assms by (simp add: k)
  ultimately show "k \<in> {k. kr dvd k \<and> kr \<le> k \<and> k \<le> m}" by (simp add: k)
next
  fix k assume "k \<in> {k. kr dvd k \<and> kr \<le> k \<and> k \<le> m}"
  then obtain c where k: "k = kr * c" and ge: "kr \<le> k" and le: "k \<le> m" by (auto simp: dvd_def)
  have c1: "1 \<le> c" using ge assms by (simp add: k)
  have "c = k div kr" using assms by (simp add: k)
  also have "\<dots> \<le> m div kr" using le assms by (simp add: zdiv_mono1)
  finally have c2: "c \<le> m div kr" .
  have "nat c \<in> set [1..<Suc (nat (m div kr))]" using c1 c2 by auto
  moreover have "k = int (nat c) * kr" using c1 by (simp add: k mult.commute)
  ultimately show "k \<in> set (map (\<lambda>j. int j * kr) [1..<Suc (nat (m div kr))])"
    by (metis (no_types, lifting) image_eqI set_map)
qed

lemma multiples_sorted:
  assumes "0 < (kr :: int)"
  shows "sorted_wrt (<) (map (\<lambda>j. int j * kr) [1..<Suc n])"
  using assms by (simp add: sorted_wrt_map del: upt_Suc)

subsection \<open>Runs that return, and what the tracker cannot change\<close>

lemma log_final_ok:
  assumes "sp \<noteq> []" and "sr \<noteq> []" and "sm \<noteq> []" and "sf \<noteq> []"
  shows "\<exists>tr'. log_final sp sr sm sf tr = Inr tr'"
  using assms by (auto simp: log_final_def py_index_def wrap_index_def Suc_le_eq)

lemma calcMetrics_returns:
  assumes "0 < k_range" and "k_range \<le> max_k" and "all_long (nat max_k) gt items"
  shows "\<exists>rep tr'. calcMetrics max_k k_range items gt rf tr = Inr (rep, tr')"
proof -
  define m where "m = nat max_k"
  obtain sp sr sm sf where arrays: "system_arrays m gt items = (sp, sr, sm, sf)"
    by (cases "system_arrays m gt items") auto
  note len = system_arrays_length [OF arrays]
  have m: "0 < m" and max_k: "max_k = int m" using assms(1,2) by (simp_all add: m_def)
  define used where "used = map (\<lambda>j. int j * k_range) [1..<Suc (nat (max_k div k_range))]"
  have used: "select_used_k max_k k_range = Inr used"
    unfolding used_def using assms(1,2) by (rule select_used_k_closed)
  have "\<forall>k \<in> set used. 1 \<le> k \<and> k \<le> int m"
    unfolding used_def multiples_set [OF assms(1)] using assms(1) max_k by auto
  from snapshot_loop_ok [OF len this]
  obtain mk where loop: "for_each (snapshot_step sp sr sm sf) [] used = Inr mk"
    by blast
  have "sp \<noteq> []" "sr \<noteq> []" "sm \<noteq> []" "sf \<noteq> []" using len m by auto
  from log_final_ok [OF this]
  obtain tr' where log: "log_final sp sr sm sf tr = Inr tr'" by blast
  show ?thesis
    unfolding calcMetrics_closed' m_def [symmetric] arrays
    using assms(1,2,3)
    by (cases rf) (simp_all add: used loop log m_def [symmetric])
qed

lemma snapshot_step_nonempty:
  "snapshot_step sp sr sm sf acc k = Inr x \<Longrightarrow> sp \<noteq> [] \<and> sr \<noteq> [] \<and> sm \<noteq> [] \<and> sf \<noteq> []"
  by (auto simp: snapshot_step_def py_index_def wrap_index_def ebind_def
      split: if_splits sum.splits)

lemma calcMetrics_report_indep:
  "map_sum id fst (calcMetrics max_k k_range items gt rf tr) =
   map_sum id fst (calcMetrics max_k k_range items gt False [])"
proof -
  obtain sp sr sm sf where arrays: "system_arrays (nat max_k) gt items = (sp, sr, sm, sf)"
    by (cases "system_arrays (nat max_k) gt items") auto
  show ?thesis
  proof (cases "select_used_k max_k k_range")
    case (Inl e)
    then show ?thesis by (simp add: calcMetrics_closed' arrays)
  next
    case (Inr used)
    then obtain more where used: "used = k_range # more"
      using select_used_k_head by blast
    show ?thesis
    proof (cases "for_each (snapshot_step sp sr sm sf) [] used")
      case (Inl e)
      then show ?thesis by (simp add: calcMetrics_closed' arrays Inr)
    next
      case loop: (Inr mk)
      then obtain x where "snapshot_step sp sr sm sf [] k_range = Inr x"
        by (auto simp: used split: sum.splits)
      then have "sp \<noteq> []" "sr \<noteq> []" "sm \<noteq> []" "sf \<noteq> []"
        using snapshot_step_nonempty by blast+
      from log_final_ok [OF this]
      obtain tr' where log: "log_final sp sr sm sf tr = Inr tr'" by blast
      show ?thesis
        by (cases rf) (simp_all add: calcMetrics_closed' arrays Inr loop log)
    qed
  qed
qed

subsection \<open>Queries without ground truth\<close>

lemma query_step_unscored:
  "gt q = None \<Longrightarrow> query_step max_k gt s (q, res) = Inr s"
  by (cases s) (simp add: query_step_def)

lemma query_loop_unscored:
  assumes "gt q = None"
  shows "for_each (query_step max_k gt) s (filter (\<lambda>(q', _). q' \<noteq> q) items) =
         for_each (query_step max_k gt) s items"
proof (induction items arbitrary: s)
  case Nil
  then show ?case by simp
next
  case (Cons item items)
  obtain q' res where item: "item = (q', res)" by (cases item)
  show ?case
  proof (cases "q' = q")
    case True
    then show ?thesis
      using Cons.IH [of s] assms by (simp add: item query_step_unscored [of gt q])
  next
    case False
    then show ?thesis
      using Cons.IH by (simp add: item split: sum.splits)
  qed
qed

lemma record_all_scored:
  "(q, qm) \<in> set (record_all m gt [] items) \<Longrightarrow> gt q \<noteq> None"
  using record_all_entries [of q qm m gt "[]" items] by auto

subsection \<open>The system-wide arrays\<close>

lemma scored_sum_scored:
  "scored_sum gt f items k =
     sum_list (map (\<lambda>(q, res). f res (set (the (gt q))) k) (scored gt items))"
  by (induction items) (auto simp: scored_sum_def scored_def split: option.splits)

lemma scored_sum_nonneg:
  assumes "\<And>res gs. 0 \<le> f res gs k"
  shows "0 \<le> scored_sum gt f items k"
  unfolding scored_sum_def
  by (rule sum_list_nonneg) (auto simp: assms split: option.splits)

lemma record_all_scored_map:
  assumes "distinct (map fst items)"
  shows "record_all m gt [] items =
     map (\<lambda>(q, res). (q, qm_of m res (the (gt q)))) (scored gt items)"
  using record_all_distinct [OF assms, of "[]" m gt] by simp

lemma record_all_empty_iff: "record_all m gt [] items = [] \<longleftrightarrow> scored gt items = []"
proof
  assume empty: "record_all m gt [] items = []"
  have "gt q = None" if "(q, res) \<in> set items" for q res
  proof (rule ccontr)
    assume "gt q \<noteq> None"
    then obtain g where g: "gt q = Some g" by auto
    have "record_all m gt pqm items \<noteq> []" if "(q, res) \<in> set items" for pqm
      using that
    proof (induction items arbitrary: pqm)
      case Nil
      then show ?case by simp
    next
      case (Cons item items)
      have keep: "record_all m gt pqm' items \<noteq> []" if "pqm' \<noteq> []" for pqm'
        using that
      proof (induction items arbitrary: pqm')
        case Nil
        then show ?case by simp
      next
        case (Cons item' items')
        obtain q' res' where "item' = (q', res')" by (cases item')
        with Cons show ?case by (cases "gt q'") simp_all
      qed
      obtain q' res' where item: "item = (q', res')" by (cases item)
      show ?case
      proof (cases "item = (q, res)")
        case True
        then show ?thesis using g keep by simp
      next
        case False
        with Cons have "(q, res) \<in> set items" by simp
        from Cons.IH [OF this] show ?thesis by (simp add: item)
      qed
    qed
    with empty that show False by blast
  qed
  then show "scored gt items = []"
    by (auto simp: scored_def filter_empty_conv)
next
  assume "scored gt items = []"
  then have none: "\<forall>(q, res) \<in> set items. gt q = None"
    by (auto simp: scored_def filter_empty_conv)
  show "record_all m gt [] items = []"
  proof (rule ccontr)
    assume "record_all m gt [] items \<noteq> []"
    then obtain q qm where "(q, qm) \<in> set (record_all m gt [] items)"
      by (cases "record_all m gt [] items") auto
    from record_all_entries [OF this] none show False by auto
  qed
qed

lemma system_arrays_nth:
  assumes "record_all m gt [] items \<noteq> []" and "i < m"
    and "system_arrays m gt items = (sp, sr, sm, sf)"
  shows "sp ! i = scored_sum gt precision_at_k items (Suc i) /
                    real (length (record_all m gt [] items))"
    and "sr ! i = scored_sum gt recall_at_k items (Suc i) /
                    real (length (record_all m gt [] items))"
    and "sm ! i = sum_list (map (\<lambda>(q, qm). ap qm ! i) (record_all m gt [] items)) /
                    real (length (record_all m gt [] items))"
    and "sf ! i = f1_entry (sp ! i) (sr ! i)"
  using assms by (auto simp: system_arrays_def sums_at_def Let_def)

lemma system_arrays_idle:
  assumes "record_all m gt [] items = []"
  shows "system_arrays m gt items =
           (replicate m 0, replicate m 0, replicate m 0, replicate m 0)"
proof -
  have "scored gt items = []" using assms by (simp add: record_all_empty_iff)
  then have "scored_sum gt f items k = 0" for f k
    by (simp add: scored_sum_scored)
  then have "sums_at m gt f items = replicate m 0" for f
    by (simp add: sums_at_def map_replicate_const)
  then show ?thesis using assms by (simp add: system_arrays_def Let_def)
qed

subsection \<open>The exceptions that can be raised\<close>

lemma py_index_error: "py_index xs i = Inl e \<Longrightarrow> e = IndexError"
  by (auto simp: py_index_def wrap_index_def split: if_splits)

lemma for_each_error:
  "for_each body s xs = Inl e \<Longrightarrow> \<exists>s' x. x \<in> set xs \<and> body s' x = Inl e"
proof (induction xs arbitrary: s)
  case Nil
  then show ?case by simp
next
  case (Cons x xs)
  then show ?case by (cases "body s x") (auto, blast)
qed

lemma snapshot_step_error:
  "snapshot_step sp sr sm sf acc k = Inl e \<Longrightarrow> e = IndexError"
  by (auto simp: snapshot_step_def ebind_def split: sum.splits dest: py_index_error)

lemma select_used_k_error: "select_used_k max_k k_range = Inl e \<Longrightarrow> e = ValueError"
  by (auto simp: select_used_k_def py_range_def split: if_splits)

lemma log_final_error: "log_final sp sr sm sf tr = Inl e \<Longrightarrow> e = IndexError"
  by (auto simp: log_final_def ebind_def split: sum.splits dest: py_index_error)

lemma calcMetrics_error:
  assumes "calcMetrics max_k k_range items gt rf tr = Inl e"
  shows "e = IndexError \<or> e = ValueError"
proof -
  obtain sp sr sm sf where arrays: "system_arrays (nat max_k) gt items = (sp, sr, sm, sf)"
    by (cases "system_arrays (nat max_k) gt items") auto
  from assms show ?thesis
    unfolding calcMetrics_closed' arrays
    by (auto simp: ebind_def split: if_splits sum.splits
        dest: select_used_k_error log_final_error snapshot_step_error
        dest!: for_each_error)
qed

subsection \<open>Zero divisors\<close>

lemma f1_entry_zero:
  assumes "0 \<le> p" and "0 \<le> r" and "p + r = 0"
  shows "f1_entry p r = 0"
proof -
  from assms have "p = 0" and "r = 0" by linarith+
  then show ?thesis by (simp add: f1_entry_def)
qed

lemma ap_walk_no_relevant: "ap_walk xs {} r = (0, 0)"
  by (induction r) simp_all

lemma qm_of_no_relevant:
  assumes "set g = {}"
  shows "recall (qm_of m res g) = replicate m 0" and "ap (qm_of m res g) = replicate m 0"
proof -
  have r: "recall_at_k res {} = (\<lambda>k. 0)"
    by (rule ext) (simp add: recall_at_k_def)
  have a: "ap_spec res {} = (\<lambda>k. 0)"
    by (rule ext) (simp add: ap_spec_def ap_walk_no_relevant)
  show "recall (qm_of m res g) = replicate m 0"
    unfolding qm_of_def assms r by (simp add: map_replicate_const del: upt_Suc)
  show "ap (qm_of m res g) = replicate m 0"
    unfolding qm_of_def assms a by (simp add: map_replicate_const del: upt_Suc)
qed

subsection \<open>The example runs\<close>

lemma example_run:
  "calcMetrics 3 1 example_results example_groundtruth False [] = Inr (example_report, [])"
  by code_simp

lemma example_keys: "distinct (map fst example_results)"
  by (simp add: example_results_def)

lemma example_entry: "(''q'', [''a'', ''x'', ''b'']) \<in> set example_results"
  by (simp add: example_results_def)

lemma example_gt: "example_groundtruth ''q'' = Some [''a'', ''b'', ''c'']"
  by (simp add: example_groundtruth_def)

lemma example_record:
  "map_of (per_query_metrics example_report) ''q'' =
     Some \<lparr>candidates = [''a'', ''x'', ''b''], ground_truth = [''a'', ''b'', ''c''],
           precision = [1, 1 / 2, 2 / 3], recall = [1 / 3, 1 / 3, 2 / 3],
           ap = [1, 1 / 2, 5 / 9]\<rparr>"
  by (simp add: example_report_def)

lemma santos_long: "all_long (nat 10) santos_groundtruth santos_results"
  by (simp add: all_long_def santos_results_def santos_groundtruth_def)

lemma empty_long: "all_long m gt []"
  by (simp add: all_long_def)

lemma idle_run:
  "calcMetrics 3 1 idle_results idle_groundtruth False [] = Inr (idle_report, [])"
  by code_simp

lemma unscored_run:
  "calcMetrics 3 1 idle_results (Map.empty :: string \<rightharpoonup> string list) False [] =
     Inr (unscored_report, [])"
  by code_simp

lemma pair_run:
  "calcMetrics 2 1 pair_results pair_groundtruth False [] = Inr (pair_report, [])"
  by code_simp

section \<open>Properties of \<open>calcMetrics\<close>\<close>

text \<open>
  C1. For a query present in both mappings and every cutoff \<open>k\<close> in \<open>1..max_k\<close>, the
  entry \<open>k - 1\<close> of the query's \<open>ap\<close> list is the value of the walk over the ranks
  \<open>1..k\<close> that increments a relevant-count and adds count over rank at each relevant
  item, divided by \<open>min k total_relevant\<close>, or by \<open>1\<close> when nothing is relevant
  (\<open>ap_spec\<close>). The theorem after it runs the example of the specification: candidates
  \<open>[a, x, b]\<close> and ground truth \<open>{a, b, c}\<close> with \<open>max_k = 3\<close> give \<open>AP@1 = 1\<close> and
  \<open>AP@3 = 5/9\<close>.
\<close>

theorem ap_at_k_is_walk:
  assumes "distinct (map fst resultFile)"
    and "(query_id, results) \<in> set resultFile"
    and "groundtruth query_id = Some gt"
    and "calcMetrics max_k k_range resultFile groundtruth record_flag tracker = Inr (rep, tracker')"
  shows "\<exists>qm. map_of (per_query_metrics rep) query_id = Some qm \<and>
           length (ap qm) = nat max_k \<and>
           (\<forall>k. 1 \<le> k \<and> k \<le> max_k \<longrightarrow>
              ap qm ! nat (k - 1) = ap_spec results (set gt) (nat k))"
proof -
  have "ap (qm_of (nat max_k) results gt) ! nat (k - 1) = ap_spec results (set gt) (nat k)"
    if "1 \<le> k" and "k \<le> max_k" for k
  proof -
    have "nat (k - 1) < nat max_k" and "Suc (nat (k - 1)) = nat k" using that by auto
    then show ?thesis by (metis qm_of_simps(7))
  qed
  with scored_query_record(1) [OF assms] show ?thesis by simp
qed

theorem ap_at_k_is_walk_witness:
  "calcMetrics 3 1 example_results example_groundtruth False [] = Inr (example_report, []) \<and>
   (\<exists>qm. map_of (per_query_metrics example_report) ''q'' = Some qm \<and> length (ap qm) = 3 \<and>
      ap qm ! 0 = 1 \<and> ap qm ! 2 = 5 / 9)"
proof -
  have keys: "distinct (map fst example_results)"
    and entry: "(''q'', [''a'', ''x'', ''b'']) \<in> set example_results"
    by (simp_all add: example_results_def)
  have gt: "example_groundtruth ''q'' = Some [''a'', ''b'', ''c'']"
    by (simp add: example_groundtruth_def)
  have v1: "ap_spec [''a'', ''x'', ''b''] (set [''a'', ''b'', ''c'']) (nat 1) = 1"
    and v3: "ap_spec [''a'', ''x'', ''b''] (set [''a'', ''b'', ''c'']) (nat 3) = 5 / 9"
    by code_simp+
  from ap_at_k_is_walk [OF keys entry gt example_run]
  obtain qm where qm: "map_of (per_query_metrics example_report) ''q'' = Some qm"
      "length (ap qm) = nat 3"
      "\<And>k. 1 \<le> k \<and> k \<le> 3 \<Longrightarrow>
         ap qm ! nat (k - 1) = ap_spec [''a'', ''x'', ''b''] (set [''a'', ''b'', ''c'']) (nat k)"
    by blast
  from qm(3) [of 1] v1 have a1: "ap qm ! 0 = 1" by simp
  from qm(3) [of 3] v3 have a3: "ap qm ! 2 = 5 / 9" by simp
  from qm(1,2) a1 a3 example_run show ?thesis by auto
qed

text \<open>
  C2. A candidate list with fewer than \<open>max_k\<close> elements is said to be scored from its
  shorter prefix without an exception. The slice \<open>results[:k]\<close> and the set intersection
  do tolerate the short list, but the average-precision loop reads
  \<open>current_results[i-1]\<close> for every \<open>i\<close> up to \<open>k\<close>: whenever a scored query has fewer
  than \<open>max_k\<close> candidates, the call raises \<open>IndexError\<close>. The theorem after it is the
  run with one candidate and \<open>max_k = 2\<close>, where the read at \<open>k = 2\<close>, \<open>i = 2\<close> fails.
\<close>

theorem short_candidate_list_raises:
  assumes "0 \<le> max_k"
    and "(query_id, results) \<in> set resultFile"
    and "groundtruth query_id = Some gt"
    and "length results < nat max_k"
  shows "calcMetrics max_k k_range resultFile groundtruth record_flag tracker = Inl IndexError"
proof -
  have "\<not> all_long (nat max_k) groundtruth resultFile"
  proof
    assume "all_long (nat max_k) groundtruth resultFile"
    then have "nat max_k \<le> length results"
      using assms(2,3) by (rule all_long_entry)
    with assms(4) show False by simp
  qed
  with assms(1) show ?thesis
    by (simp add: calcMetrics_closed')
qed

theorem short_candidate_list_raises_witness:
  "calcMetrics 2 1 [(''q'', [''a''])] [''q'' \<mapsto> [''a'']] False [] = Inl IndexError"
  by (rule short_candidate_list_raises [of 2 "''q''" "[''a'']" _ _ "[''a'']"]) simp_all

text \<open>
  C3. For every scored query and every cutoff \<open>k\<close> in \<open>1..max_k\<close>, precision and recall lie
  in the unit interval and the average precision is not negative; the average precision
  is at most \<open>1\<close> when the first \<open>k\<close> candidates contain no identifier twice. (The walk
  counts every position of a repeated relevant identifier, while the normalizer counts
  it once, so a candidate list with duplicates can push \<open>AP@k\<close> above \<open>1\<close>: the last
  theorem of the three runs \<open>[a, a]\<close> against \<open>{a}\<close> and gets \<open>AP@2 = 2\<close>.)
\<close>

theorem metrics_in_unit_interval:
  assumes "distinct (map fst resultFile)"
    and "(query_id, results) \<in> set resultFile"
    and "groundtruth query_id = Some gt"
    and "calcMetrics max_k k_range resultFile groundtruth record_flag tracker = Inr (rep, tracker')"
  shows "\<exists>qm. map_of (per_query_metrics rep) query_id = Some qm \<and>
           (\<forall>k. 1 \<le> k \<and> k \<le> max_k \<longrightarrow>
              0 \<le> precision qm ! nat (k - 1) \<and> precision qm ! nat (k - 1) \<le> 1 \<and>
              0 \<le> recall qm ! nat (k - 1) \<and> recall qm ! nat (k - 1) \<le> 1 \<and>
              0 \<le> ap qm ! nat (k - 1) \<and>
              (distinct (take (nat k) results) \<longrightarrow> ap qm ! nat (k - 1) \<le> 1))"
proof -
  let ?qm = "qm_of (nat max_k) results gt"
  have long: "nat max_k \<le> length results"
    by (rule scored_query_record(2) [OF assms])
  have "0 \<le> precision ?qm ! nat (k - 1) \<and> precision ?qm ! nat (k - 1) \<le> 1 \<and>
        0 \<le> recall ?qm ! nat (k - 1) \<and> recall ?qm ! nat (k - 1) \<le> 1 \<and>
        0 \<le> ap ?qm ! nat (k - 1) \<and>
        (distinct (take (nat k) results) \<longrightarrow> ap ?qm ! nat (k - 1) \<le> 1)"
    if "1 \<le> k" and "k \<le> max_k" for k
  proof -
    have i: "nat (k - 1) < nat max_k" and s: "Suc (nat (k - 1)) = nat k"
      using that by auto
    have len: "nat k \<le> length results" using long that by linarith
    have p: "precision ?qm ! nat (k - 1) = precision_at_k results (set gt) (nat k)"
      and r: "recall ?qm ! nat (k - 1) = recall_at_k results (set gt) (nat k)"
      and a: "ap ?qm ! nat (k - 1) = ap_spec results (set gt) (nat k)"
      using i by (simp_all only: qm_of_simps s)
    show ?thesis
      unfolding p r a
      using precision_at_k_bounds [of results "set gt" "nat k"]
        recall_at_k_bounds [of results "set gt" "nat k"]
        ap_spec_nonneg [of results "set gt" "nat k"]
        ap_spec_le_1 [OF len, of "set gt"]
      by simp
  qed
  with scored_query_record(1) [OF assms] show ?thesis by simp
qed

theorem metrics_in_unit_interval_witness:
  "\<exists>qm. map_of (per_query_metrics example_report) ''q'' = Some qm \<and>
     0 \<le> precision qm ! 2 \<and> precision qm ! 2 \<le> 1 \<and>
     0 \<le> recall qm ! 2 \<and> recall qm ! 2 \<le> 1 \<and> 0 \<le> ap qm ! 2 \<and> ap qm ! 2 \<le> 1"
proof -
  from metrics_in_unit_interval [OF example_keys example_entry example_gt example_run]
  obtain qm where qm: "map_of (per_query_metrics example_report) ''q'' = Some qm"
      "\<And>k. 1 \<le> k \<and> k \<le> 3 \<Longrightarrow>
         0 \<le> precision qm ! nat (k - 1) \<and> precision qm ! nat (k - 1) \<le> 1 \<and>
         0 \<le> recall qm ! nat (k - 1) \<and> recall qm ! nat (k - 1) \<le> 1 \<and>
         0 \<le> ap qm ! nat (k - 1) \<and>
         (distinct (take (nat k) [''a'', ''x'', ''b'']) \<longrightarrow> ap qm ! nat (k - 1) \<le> 1)"
    by blast
  have "nat (3 - 1) = 2" by simp
  with qm(2) [of 3] have
    "0 \<le> precision qm ! 2 \<and> precision qm ! 2 \<le> 1 \<and> 0 \<le> recall qm ! 2 \<and>
     recall qm ! 2 \<le> 1 \<and> 0 \<le> ap qm ! 2 \<and> ap qm ! 2 \<le> 1"
    by simp
  with qm(1) show ?thesis by blast
qed

theorem ap_above_one_counterexample:
  "calcMetrics 2 1 [(''q'', [''a'', ''a''])] [''q'' \<mapsto> [''a'']] False [] =
     Inr (\<lparr>system_metrics =
            \<lparr>sys_precision = [1, 1 / 2], sys_recall = [1, 1], sys_map = [1, 2],
             sys_f1 = [1, 2 / 3], sys_used_k = [1, 2],
             sys_metrics_at_k =
               [(1, \<lparr>precision_at = 1, recall_at = 1, map_at = 1, f1_at = 1\<rparr>),
                (2, \<lparr>precision_at = 1 / 2, recall_at = 1, map_at = 2, f1_at = 2 / 3\<rparr>)]\<rparr>,
           per_query_metrics =
             [(''q'', \<lparr>candidates = [''a'', ''a''], ground_truth = [''a''],
                       precision = [1, 1 / 2], recall = [1, 1], ap = [1, 2]\<rparr>)]\<rparr>, []) \<and>
   \<not> (2 :: real) \<le> 1"
  by code_simp

text \<open>
  C4. No division by zero reaches the caller: \<open>calcMetrics\<close> never raises
  \<open>ZeroDivisionError\<close>, and in a returned report (1) a scored query with an empty ground
  truth has recall \<open>0\<close> and average precision \<open>0\<close> at every cutoff, (2) with no scored
  query the four system-wide arrays hold \<open>max_k\<close> zeros, and (3) wherever mean precision
  plus mean recall is \<open>0\<close> the F1 entry is \<open>0\<close> (the \<open>nan\<close> of numpy's \<open>0 / 0\<close> is
  replaced).
\<close>

theorem division_by_zero_resolved:
  "calcMetrics max_k k_range resultFile groundtruth record_flag tracker \<noteq> Inl ZeroDivisionError \<and>
   (calcMetrics max_k k_range resultFile groundtruth record_flag tracker = Inr (rep, tracker') \<longrightarrow>
      (distinct (map fst resultFile) \<and> (query_id, results) \<in> set resultFile \<and>
       groundtruth query_id = Some gt \<and> set gt = {} \<longrightarrow>
         (\<exists>qm. map_of (per_query_metrics rep) query_id = Some qm \<and>
            recall qm = replicate (nat max_k) 0 \<and> ap qm = replicate (nat max_k) 0)) \<and>
      ((\<forall>(q, res) \<in> set resultFile. groundtruth q = None) \<longrightarrow>
         sys_precision (system_metrics rep) = replicate (nat max_k) 0 \<and>
         sys_recall (system_metrics rep) = replicate (nat max_k) 0 \<and>
         sys_map (system_metrics rep) = replicate (nat max_k) 0 \<and>
         sys_f1 (system_metrics rep) = replicate (nat max_k) 0) \<and>
      (\<forall>k. 1 \<le> k \<and> k \<le> max_k \<and>
         sys_precision (system_metrics rep) ! nat (k - 1) +
           sys_recall (system_metrics rep) ! nat (k - 1) = 0 \<longrightarrow>
         sys_f1 (system_metrics rep) ! nat (k - 1) = 0))"
proof (intro conjI impI)
  show "calcMetrics max_k k_range resultFile groundtruth record_flag tracker \<noteq>
      Inl ZeroDivisionError"
    using calcMetrics_error [of max_k k_range resultFile groundtruth record_flag tracker]
    by auto
next
  assume run: "calcMetrics max_k k_range resultFile groundtruth record_flag tracker =
      Inr (rep, tracker')"
    and q: "distinct (map fst resultFile) \<and> (query_id, results) \<in> set resultFile \<and>
       groundtruth query_id = Some gt \<and> set gt = {}"
  then have "map_of (per_query_metrics rep) query_id = Some (qm_of (nat max_k) results gt)"
    using scored_query_record(1) by metis
  with q show "\<exists>qm. map_of (per_query_metrics rep) query_id = Some qm \<and>
      recall qm = replicate (nat max_k) 0 \<and> ap qm = replicate (nat max_k) 0"
    by (simp add: qm_of_no_relevant)
next
  assume run: "calcMetrics max_k k_range resultFile groundtruth record_flag tracker =
      Inr (rep, tracker')"
    and none: "\<forall>(q, res) \<in> set resultFile. groundtruth q = None"
  have "scored groundtruth resultFile = []"
    using none by (auto simp: scored_def filter_empty_conv)
  then have "record_all (nat max_k) groundtruth [] resultFile = []"
    by (simp add: record_all_empty_iff)
  from system_arrays_idle [OF this] calcMetrics_InrD(4) [OF run]
  show "sys_precision (system_metrics rep) = replicate (nat max_k) 0"
    and "sys_recall (system_metrics rep) = replicate (nat max_k) 0"
    and "sys_map (system_metrics rep) = replicate (nat max_k) 0"
    and "sys_f1 (system_metrics rep) = replicate (nat max_k) 0"
    by simp_all
next
  assume run: "calcMetrics max_k k_range resultFile groundtruth record_flag tracker =
      Inr (rep, tracker')"
  show "\<forall>k. 1 \<le> k \<and> k \<le> max_k \<and>
         sys_precision (system_metrics rep) ! nat (k - 1) +
           sys_recall (system_metrics rep) ! nat (k - 1) = 0 \<longrightarrow>
         sys_f1 (system_metrics rep) ! nat (k - 1) = 0"
  proof (intro allI impI)
    fix k
    assume k: "1 \<le> k \<and> k \<le> max_k \<and>
         sys_precision (system_metrics rep) ! nat (k - 1) +
           sys_recall (system_metrics rep) ! nat (k - 1) = 0"
    define i where "i = nat (k - 1)"
    have i: "i < nat max_k" using k by (simp add: i_def)
    note arrays = calcMetrics_InrD(4) [OF run]
    show "sys_f1 (system_metrics rep) ! nat (k - 1) = 0"
    proof (cases "record_all (nat max_k) groundtruth [] resultFile = []")
      case True
      from system_arrays_idle [OF True] arrays i show ?thesis
        by (simp add: i_def)
    next
      case False
      note nth = system_arrays_nth [OF False i arrays]
      have "0 \<le> sys_precision (system_metrics rep) ! i"
        unfolding nth(1)
        by (intro divide_nonneg_nonneg scored_sum_nonneg precision_at_k_bounds(1)) simp
      moreover have "0 \<le> sys_recall (system_metrics rep) ! i"
        unfolding nth(2)
        by (intro divide_nonneg_nonneg scored_sum_nonneg recall_at_k_bounds(1)) simp
      ultimately show ?thesis
        using k nth(4) by (simp add: i_def [symmetric] f1_entry_zero)
    qed
  qed
qed

theorem division_by_zero_resolved_witness:
  "calcMetrics 3 1 idle_results idle_groundtruth False [] = Inr (idle_report, []) \<and>
   (\<exists>qm. map_of (per_query_metrics idle_report) ''e'' = Some qm \<and>
      recall qm = replicate (nat 3) 0 \<and> ap qm = replicate (nat 3) 0) \<and>
   sys_f1 (system_metrics idle_report) ! nat (3 - 1) = 0 \<and>
   calcMetrics 3 1 idle_results (Map.empty :: string \<rightharpoonup> string list) False [] =
     Inr (unscored_report, []) \<and>
   sys_precision (system_metrics unscored_report) = replicate (nat 3) 0 \<and>
   sys_recall (system_metrics unscored_report) = replicate (nat 3) 0 \<and>
   sys_map (system_metrics unscored_report) = replicate (nat 3) 0 \<and>
   sys_f1 (system_metrics unscored_report) = replicate (nat 3) 0"
proof -
  have scored_e: "distinct (map fst idle_results) \<and>
      (''e'', [''c'', ''d'', ''e'']) \<in> set idle_results \<and>
      idle_groundtruth ''e'' = Some [] \<and> set ([] :: string list) = {}"
    by (simp add: idle_results_def idle_groundtruth_def)
  have zero_sum: "(1 :: int) \<le> 3 \<and> (3 :: int) \<le> 3 \<and>
      sys_precision (system_metrics idle_report) ! nat (3 - 1) +
        sys_recall (system_metrics idle_report) ! nat (3 - 1) = 0"
    by (simp add: idle_report_def zero_system_def)
  have none: "\<forall>(q, res) \<in> set idle_results. (Map.empty :: string \<rightharpoonup> string list) q = None"
    by simp
  note first = division_by_zero_resolved
    [where max_k = 3 and k_range = 1 and resultFile = idle_results
       and groundtruth = idle_groundtruth and record_flag = False and tracker = "[]"
       and rep = idle_report and tracker' = "[]" and query_id = "''e''"
       and results = "[''c'', ''d'', ''e'']" and gt = "[]"]
  note second = division_by_zero_resolved
    [where max_k = 3 and k_range = 1 and resultFile = idle_results
       and groundtruth = "Map.empty :: string \<rightharpoonup> string list" and record_flag = False
       and tracker = "[]" and rep = unscored_report and tracker' = "[]"]
  from first idle_run scored_e zero_sum
  have a: "(\<exists>qm. map_of (per_query_metrics idle_report) ''e'' = Some qm \<and>
      recall qm = replicate (nat 3) 0 \<and> ap qm = replicate (nat 3) 0) \<and>
      sys_f1 (system_metrics idle_report) ! nat (3 - 1) = 0"
    by blast
  from second unscored_run none
  have b: "sys_precision (system_metrics unscored_report) = replicate (nat 3) 0 \<and>
     sys_recall (system_metrics unscored_report) = replicate (nat 3) 0 \<and>
     sys_map (system_metrics unscored_report) = replicate (nat 3) 0 \<and>
     sys_f1 (system_metrics unscored_report) = replicate (nat 3) 0"
    by blast
  from a b idle_run unscored_run show ?thesis by blast
qed

text \<open>
  C5. For every scored query the recall sequence does not decrease: the entry for cutoff
  \<open>k\<close> is at most the entry for cutoff \<open>k + 1\<close>, for all \<open>k\<close> with \<open>1 \<le> k < max_k\<close>.
\<close>

theorem recall_non_decreasing:
  assumes "distinct (map fst resultFile)"
    and "(query_id, results) \<in> set resultFile"
    and "groundtruth query_id = Some gt"
    and "calcMetrics max_k k_range resultFile groundtruth record_flag tracker = Inr (rep, tracker')"
  shows "\<exists>qm. map_of (per_query_metrics rep) query_id = Some qm \<and>
           length (recall qm) = nat max_k \<and>
           (\<forall>k. 1 \<le> k \<and> k < max_k \<longrightarrow> recall qm ! nat (k - 1) \<le> recall qm ! nat k)"
proof -
  let ?qm = "qm_of (nat max_k) results gt"
  have "recall ?qm ! nat (k - 1) \<le> recall ?qm ! nat k" if "1 \<le> k" and "k < max_k" for k
  proof -
    have i: "nat (k - 1) < nat max_k" and j: "nat k < nat max_k"
      and s: "Suc (nat (k - 1)) = nat k"
      using that by auto
    have "recall ?qm ! nat (k - 1) = recall_at_k results (set gt) (nat k)"
      using i by (simp only: qm_of_simps s)
    moreover have "recall ?qm ! nat k = recall_at_k results (set gt) (Suc (nat k))"
      using j by (simp only: qm_of_simps)
    ultimately show ?thesis by (simp only: recall_at_k_mono)
  qed
  with scored_query_record(1) [OF assms] show ?thesis by simp
qed

theorem recall_non_decreasing_witness:
  "\<exists>qm. map_of (per_query_metrics example_report) ''q'' = Some qm \<and>
     recall qm = [1 / 3, 1 / 3, 2 / 3] \<and> recall qm ! 0 \<le> recall qm ! 1 \<and>
     recall qm ! 1 \<le> recall qm ! 2"
proof -
  from recall_non_decreasing [OF example_keys example_entry example_gt example_run]
  obtain qm where qm: "map_of (per_query_metrics example_report) ''q'' = Some qm"
      "\<And>k. 1 \<le> k \<and> k < 3 \<Longrightarrow> recall qm ! nat (k - 1) \<le> recall qm ! nat k"
    by blast
  from qm(2) [of 1] qm(2) [of 2] have "recall qm ! 0 \<le> recall qm ! 1 \<and> recall qm ! 1 \<le> recall qm ! 2"
    by simp
  moreover from qm(1) have "recall qm = [1 / 3, 1 / 3, 2 / 3]"
    by (auto simp: example_record)
  ultimately show ?thesis using qm(1) by blast
qed

text \<open>
  C6. A query of the results mapping that is absent from the ground-truth mapping is
  skipped: the run has the outcome of the run on the results without that query (so the
  query adds nothing to the sums and does not count in the divisor of the means), and
  the query has no entry in \<open>per_query_metrics\<close>.
\<close>

theorem unscored_query_skipped:
  assumes "groundtruth query_id = None"
  shows "calcMetrics max_k k_range resultFile groundtruth record_flag tracker =
         calcMetrics max_k k_range (filter (\<lambda>(q, _). q \<noteq> query_id) resultFile)
           groundtruth record_flag tracker \<and>
         (\<forall>rep tracker'.
            calcMetrics max_k k_range resultFile groundtruth record_flag tracker =
              Inr (rep, tracker') \<longrightarrow>
            query_id \<notin> fst ` set (per_query_metrics rep))"
proof
  show "calcMetrics max_k k_range resultFile groundtruth record_flag tracker =
        calcMetrics max_k k_range (filter (\<lambda>(q, _). q \<noteq> query_id) resultFile)
          groundtruth record_flag tracker"
    unfolding calcMetrics_def
    using assms by (simp only: query_loop_unscored [of groundtruth query_id])
  show "\<forall>rep tracker'.
          calcMetrics max_k k_range resultFile groundtruth record_flag tracker =
            Inr (rep, tracker') \<longrightarrow>
          query_id \<notin> fst ` set (per_query_metrics rep)"
  proof (intro allI impI notI)
    fix rep tracker'
    assume run: "calcMetrics max_k k_range resultFile groundtruth record_flag tracker =
        Inr (rep, tracker')"
      and "query_id \<in> fst ` set (per_query_metrics rep)"
    then obtain qm where "(query_id, qm) \<in> set (per_query_metrics rep)" by auto
    then have "groundtruth query_id \<noteq> None"
      using calcMetrics_InrD(3) [OF run] record_all_scored by metis
    with assms show False by simp
  qed
qed

theorem unscored_query_skipped_witness:
  "calcMetrics 3 1 mixed_results example_groundtruth False [] = Inr (example_report, []) \<and>
   ''z'' \<notin> fst ` set (per_query_metrics example_report)"
proof -
  have absent: "example_groundtruth ''z'' = None"
    by (simp add: example_groundtruth_def)
  have rest: "filter (\<lambda>(q, _). q \<noteq> ''z'') mixed_results = example_results"
    by (simp add: mixed_results_def example_results_def)
  from absent
  have "calcMetrics 3 1 mixed_results example_groundtruth False [] =
        calcMetrics 3 1 (filter (\<lambda>(q, _). q \<noteq> ''z'') mixed_results)
          example_groundtruth False [] \<and>
        (\<forall>rep tracker'.
           calcMetrics 3 1 mixed_results example_groundtruth False [] = Inr (rep, tracker') \<longrightarrow>
           ''z'' \<notin> fst ` set (per_query_metrics rep))"
    by (rule unscored_query_skipped [of example_groundtruth "''z''"])
  then show ?thesis
    unfolding rest example_run by simp
qed

text \<open>
  C7. For a positive step \<open>k_range\<close>, the reporting points of a returned report are the
  multiples \<open>k_range, 2 * k_range, \<dots>\<close> that do not exceed \<open>max_k\<close>, in increasing order,
  and \<open>metrics_at_k\<close> maps exactly these points, each to the snapshot of the four
  system-wide arrays at index \<open>k - 1\<close>. The theorem after it runs \<open>max_k = 10\<close> with
  \<open>k_range = 5\<close> and \<open>max_k = 60\<close> with \<open>k_range = 10\<close>.
\<close>

theorem reporting_points:
  assumes "0 < k_range"
    and "calcMetrics max_k k_range resultFile groundtruth record_flag tracker = Inr (rep, tracker')"
  shows "k_range \<le> max_k \<and>
    sys_used_k (system_metrics rep) =
      map (\<lambda>j. int j * k_range) [1..<Suc (nat (max_k div k_range))] \<and>
    set (sys_used_k (system_metrics rep)) = {k. k_range dvd k \<and> k_range \<le> k \<and> k \<le> max_k} \<and>
    sorted_wrt (<) (sys_used_k (system_metrics rep)) \<and>
    length (sys_precision (system_metrics rep)) = nat max_k \<and>
    length (sys_recall (system_metrics rep)) = nat max_k \<and>
    length (sys_map (system_metrics rep)) = nat max_k \<and>
    length (sys_f1 (system_metrics rep)) = nat max_k \<and>
    (\<forall>k. map_of (sys_metrics_at_k (system_metrics rep)) k =
       (if k \<in> set (sys_used_k (system_metrics rep))
        then Some \<lparr>precision_at = sys_precision (system_metrics rep) ! nat (k - 1),
                   recall_at = sys_recall (system_metrics rep) ! nat (k - 1),
                   map_at = sys_map (system_metrics rep) ! nat (k - 1),
                   f1_at = sys_f1 (system_metrics rep) ! nat (k - 1)\<rparr>
        else None))"
proof -
  define sp where "sp = sys_precision (system_metrics rep)"
  define sr where "sr = sys_recall (system_metrics rep)"
  define sm where "sm = sys_map (system_metrics rep)"
  define sf where "sf = sys_f1 (system_metrics rep)"
  define used where "used = sys_used_k (system_metrics rep)"
  define mk where "mk = sys_metrics_at_k (system_metrics rep)"
  define m where "m = nat max_k"
  note facts = calcMetrics_InrD [OF assms(2), folded sp_def sr_def sm_def sf_def used_def mk_def m_def]
  have max_k: "max_k = int m" using facts(1) by (simp add: m_def)
  note len = system_arrays_length [OF facts(4)]
  obtain more where head: "used = k_range # more"
    using select_used_k_head [OF facts(5)] by blast
  have k1: "1 \<le> k_range" using assms(1) by simp
  have le: "k_range \<le> max_k"
    using facts(6) unfolding head
    by (simp add: snapshot_step_closed [OF k1 len] max_k split: if_splits)
  have closed: "used = map (\<lambda>j. int j * k_range) [1..<Suc (nat (max_k div k_range))]"
    using facts(5) select_used_k_closed [OF assms(1) le] by simp
  have set_used: "set used = {k. k_range dvd k \<and> k_range \<le> k \<and> k \<le> max_k}"
    unfolding closed by (rule multiples_set [OF assms(1)])
  have sorted: "sorted_wrt (<) used"
    unfolding closed by (rule multiples_sorted [OF assms(1)])
  have "\<forall>k \<in> set used. 1 \<le> k" unfolding set_used using assms(1) by auto
  from snapshot_loop_lookup [OF len this facts(6)]
  have lookup: "map_of mk k = (if k \<in> set used then Some (snapshot_of sp sr sm sf k) else None)"
    for k by simp
  show ?thesis
    unfolding sp_def [symmetric] sr_def [symmetric] sm_def [symmetric] sf_def [symmetric]
      used_def [symmetric] mk_def [symmetric] m_def [symmetric]
    using le closed set_used sorted len lookup
    by (simp only: snapshot_of_def simp_thms)
qed

theorem reporting_points_witness:
  "(\<exists>rep tr. calcMetrics 10 5 santos_results santos_groundtruth False [] = Inr (rep, tr) \<and>
      sys_used_k (system_metrics rep) = [5, 10] \<and>
      map_of (sys_metrics_at_k (system_metrics rep)) 5 =
        Some \<lparr>precision_at = sys_precision (system_metrics rep) ! 4,
              recall_at = sys_recall (system_metrics rep) ! 4,
              map_at = sys_map (system_metrics rep) ! 4,
              f1_at = sys_f1 (system_metrics rep) ! 4\<rparr>) \<and>
   (\<exists>rep tr. calcMetrics 60 10 ([] :: (string \<times> string list) list) Map.empty False [] =
        Inr (rep, tr) \<and>
      sys_used_k (system_metrics rep) = [10, 20, 30, 40, 50, 60])"
proof
  have m5: "map (\<lambda>j. int j * 5) [1..<Suc (nat (10 div 5))] = [5, 10]"
    by code_simp
  obtain rep tr where
    run: "calcMetrics 10 5 santos_results santos_groundtruth False [] = Inr (rep, tr)"
    using calcMetrics_returns [OF _ _ santos_long, of 5 False "[]"] by auto
  have pos: "(0 :: int) < 5" by simp
  note r = reporting_points [OF pos run, unfolded m5]
  from r have "sys_used_k (system_metrics rep) = [5, 10]" by blast
  moreover from r have "map_of (sys_metrics_at_k (system_metrics rep)) 5 =
        Some \<lparr>precision_at = sys_precision (system_metrics rep) ! 4,
              recall_at = sys_recall (system_metrics rep) ! 4,
              map_at = sys_map (system_metrics rep) ! 4,
              f1_at = sys_f1 (system_metrics rep) ! 4\<rparr>" by simp
  ultimately show "\<exists>rep tr. calcMetrics 10 5 santos_results santos_groundtruth False [] =
        Inr (rep, tr) \<and>
      sys_used_k (system_metrics rep) = [5, 10] \<and>
      map_of (sys_metrics_at_k (system_metrics rep)) 5 =
        Some \<lparr>precision_at = sys_precision (system_metrics rep) ! 4,
              recall_at = sys_recall (system_metrics rep) ! 4,
              map_at = sys_map (system_metrics rep) ! 4,
              f1_at = sys_f1 (system_metrics rep) ! 4\<rparr>"
    using run by blast
next
  have m10: "map (\<lambda>j. int j * 10) [1..<Suc (nat (60 div 10))] = [10, 20, 30, 40, 50, 60]"
    by code_simp
  obtain rep tr where
    run: "calcMetrics 60 10 ([] :: (string \<times> string list) list) Map.empty False [] = Inr (rep, tr)"
    using calcMetrics_returns [OF _ _ empty_long, of 10 60 Map.empty False "[]"] by auto
  have pos: "(0 :: int) < 10" by simp
  from reporting_points [OF pos run, unfolded m10]
  have "sys_used_k (system_metrics rep) = [10, 20, 30, 40, 50, 60]" by blast
  with run show "\<exists>rep tr. calcMetrics 60 10 ([] :: (string \<times> string list) list) Map.empty False [] =
        Inr (rep, tr) \<and>
      sys_used_k (system_metrics rep) = [10, 20, 30, 40, 50, 60]"
    by blast
qed

text \<open>
  C8. When at least one query is scored, the entry \<open>k - 1\<close> of the system-wide precision
  (recall, MAP) array is the sum over the scored queries of the entry \<open>k - 1\<close> of the
  query's precision (recall, average-precision) list, divided by the number of scored
  queries, for every \<open>k\<close> in \<open>1..max_k\<close>; the scored queries are the queries of the
  results mapping that the ground truth holds, in their order. The theorem after it is
  a run with three queries, two of them scored: the means are over the two.
\<close>

theorem system_means:
  assumes "distinct (map fst resultFile)"
    and "calcMetrics max_k k_range resultFile groundtruth record_flag tracker = Inr (rep, tracker')"
    and "per_query_metrics rep \<noteq> []"
  shows "map fst (per_query_metrics rep) = map fst (scored groundtruth resultFile) \<and>
    (\<forall>k. 1 \<le> k \<and> k \<le> max_k \<longrightarrow>
       sys_precision (system_metrics rep) ! nat (k - 1) =
         sum_list (map (\<lambda>(q, qm). precision qm ! nat (k - 1)) (per_query_metrics rep)) /
           real (length (per_query_metrics rep)) \<and>
       sys_recall (system_metrics rep) ! nat (k - 1) =
         sum_list (map (\<lambda>(q, qm). recall qm ! nat (k - 1)) (per_query_metrics rep)) /
           real (length (per_query_metrics rep)) \<and>
       sys_map (system_metrics rep) ! nat (k - 1) =
         sum_list (map (\<lambda>(q, qm). ap qm ! nat (k - 1)) (per_query_metrics rep)) /
           real (length (per_query_metrics rep)))"
proof -
  define m where "m = nat max_k"
  define pqm where "pqm = per_query_metrics rep"
  note facts = calcMetrics_InrD [OF assms(2), folded m_def pqm_def]
  have pqm: "pqm = map (\<lambda>(q, res). (q, qm_of m res (the (groundtruth q))))
                     (scored groundtruth resultFile)"
    using facts(3) record_all_scored_map [OF assms(1)] by simp
  have nonempty: "record_all m groundtruth [] resultFile \<noteq> []"
    using assms(3) facts(3) by (simp add: pqm_def)
  have keys: "map fst pqm = map fst (scored groundtruth resultFile)"
    by (simp add: pqm case_prod_unfold comp_def)
  have "sys_precision (system_metrics rep) ! i =
          sum_list (map (\<lambda>(q, qm). precision qm ! i) pqm) / real (length pqm) \<and>
        sys_recall (system_metrics rep) ! i =
          sum_list (map (\<lambda>(q, qm). recall qm ! i) pqm) / real (length pqm) \<and>
        sys_map (system_metrics rep) ! i =
          sum_list (map (\<lambda>(q, qm). ap qm ! i) pqm) / real (length pqm)"
    if i: "i < m" for i
  proof -
    have p: "sum_list (map (\<lambda>(q, qm). precision qm ! i) pqm) =
        scored_sum groundtruth precision_at_k resultFile (Suc i)"
      using i by (simp add: pqm scored_sum_scored case_prod_unfold comp_def)
    have r: "sum_list (map (\<lambda>(q, qm). recall qm ! i) pqm) =
        scored_sum groundtruth recall_at_k resultFile (Suc i)"
      using i by (simp add: pqm scored_sum_scored case_prod_unfold comp_def)
    show ?thesis
      unfolding p r
      using system_arrays_nth(1-3) [OF nonempty i facts(4)] facts(3) by simp
  qed
  moreover have "nat (k - 1) < m" if "1 \<le> k" and "k \<le> max_k" for k
    using that by (simp add: m_def)
  ultimately show ?thesis
    unfolding pqm_def [symmetric] using keys by blast
qed

theorem system_means_witness:
  "calcMetrics 2 1 pair_results pair_groundtruth False [] = Inr (pair_report, []) \<and>
   map fst (per_query_metrics pair_report) = [''q1'', ''q2''] \<and>
   sys_precision (system_metrics pair_report) ! nat (1 - 1) = (1 + 0) / 2 \<and>
   sys_recall (system_metrics pair_report) ! nat (1 - 1) = (1 + 0) / 2 \<and>
   sys_map (system_metrics pair_report) ! nat (2 - 1) = (1 + 1 / 2) / 2"
proof -
  have keys: "distinct (map fst pair_results)"
    by (simp add: pair_results_def)
  have nonempty: "per_query_metrics pair_report \<noteq> []"
    by (simp add: pair_report_def)
  have sc: "map fst (scored pair_groundtruth pair_results) = [''q1'', ''q2'']"
    by (simp add: scored_def pair_results_def pair_groundtruth_def)
  note means = system_means [OF keys pair_run nonempty]
  have k1: "(1 :: int) \<le> 1 \<and> (1 :: int) \<le> 2" and k2: "(1 :: int) \<le> 2 \<and> (2 :: int) \<le> 2"
    by simp_all
  from means have "map fst (per_query_metrics pair_report) =
      map fst (scored pair_groundtruth pair_results)"
    by blast
  then have queries: "map fst (per_query_metrics pair_report) = [''q1'', ''q2'']"
    by (simp only: sc)
  from means k1 have "sys_precision (system_metrics pair_report) ! nat (1 - 1) =
      sum_list (map (\<lambda>(q, qm). precision qm ! nat (1 - 1)) (per_query_metrics pair_report)) /
        real (length (per_query_metrics pair_report))"
    by blast
  also have "\<dots> = (1 + 0) / 2" by (simp add: pair_report_def)
  finally have p: "sys_precision (system_metrics pair_report) ! nat (1 - 1) = (1 + 0) / 2" .
  from means k1 have "sys_recall (system_metrics pair_report) ! nat (1 - 1) =
      sum_list (map (\<lambda>(q, qm). recall qm ! nat (1 - 1)) (per_query_metrics pair_report)) /
        real (length (per_query_metrics pair_report))"
    by blast
  also have "\<dots> = (1 + 0) / 2" by (simp add: pair_report_def)
  finally have r: "sys_recall (system_metrics pair_report) ! nat (1 - 1) = (1 + 0) / 2" .
  from means k2 have "sys_map (system_metrics pair_report) ! nat (2 - 1) =
      sum_list (map (\<lambda>(q, qm). ap qm ! nat (2 - 1)) (per_query_metrics pair_report)) /
        real (length (per_query_metrics pair_report))"
    by blast
  also have "\<dots> = (1 + 1 / 2) / 2" by (simp add: pair_report_def)
  finally have m: "sys_map (system_metrics pair_report) ! nat (2 - 1) = (1 + 1 / 2) / 2" .
  from pair_run queries p r m show ?thesis by blast
qed

text \<open>
  C9. The report is a function of \<open>max_k\<close>, \<open>k_range\<close>, the results mapping and the
  ground-truth mapping alone: two runs on the same four inputs return the same report
  (or raise the same exception), whatever the logging flag and the state of the
  experiment tracker are in each run.
\<close>

theorem report_deterministic:
  "map_sum id fst (calcMetrics max_k k_range resultFile groundtruth record_flag tracker) =
   map_sum id fst (calcMetrics max_k k_range resultFile groundtruth record_flag' tracker')"
  using calcMetrics_report_indep [of max_k k_range resultFile groundtruth record_flag tracker]
    calcMetrics_report_indep [of max_k k_range resultFile groundtruth record_flag' tracker']
  by simp



end
